theory Spec2Isabelle
  imports Main "HOL-Library.Multiset"
begin

section \<open>Data model of \<^verbatim>\<open>slurminade/autobatch.py\<close>\<close>

text \<open>
  Python values that occur as arguments and as option values. Integers and strings are
  hashable and compare by value; a list is the unhashable value (\<^verbatim>\<open>hash([])\<close> raises
  \<^verbatim>\<open>TypeError\<close>). Floats, booleans and objects with identity are outside the model.
\<close>

datatype pyval = PInt int | PStr string | PList "pyval list"

text \<open>
  A Python \<^verbatim>\<open>dict\<close> with string keys keeps its items in insertion order; it is an
  association list. Python keeps the keys of a dict pairwise different, which is the
  predicate \<open>is_dict\<close>.
\<close>

type_synonym pydict = "(string \<times> pyval) list"

definition is_dict :: "pydict \<Rightarrow> bool" where
  "is_dict d = distinct (map fst d)"

text \<open>
  The exceptions the code can raise, the ones raised by the body of a scope, and the ones
  raised by a function that is run in-process.
\<close>

datatype exn =
  ValueError | TypeError | AttributeError | BodyException string | TargetException string

text \<open>\<^verbatim>\<open>_FunctionCall(func_id, args, kwargs)\<close>\<close>

record FunctionCall =
  func_id :: string
  args :: "pyval list"
  kwargs :: pydict

text \<open>
  What a caller can pass as \<^verbatim>\<open>func\<close>: an instance of \<^verbatim>\<open>SlurmFunction\<close>, with its
  \<^verbatim>\<open>func_id\<close> and \<^verbatim>\<open>special_slurm_opts\<close>, or any other object.
\<close>

datatype pyobj = SlurmFunction string pydict | OtherObject pyval

text \<open>
  Everything the code does to the outside is an event of a trace: a batch job handed to
  \<^verbatim>\<open>dispatch_batch_to_slurm\<close>, a single job handed to \<^verbatim>\<open>dispatch_to_slurm\<close>, a call run
  in-process by \<^verbatim>\<open>SlurmFunction.call\<close>, and a line printed.
\<close>

datatype event =
    DispatchBatch "FunctionCall list" pydict
  | Dispatch FunctionCall pydict
  | Call FunctionCall
  | Print string

text \<open>
  The collaborators that are not part of this module are parameters:
  \<^verbatim>\<open>_get_conf\<close>, Python's \<^verbatim>\<open>hash\<close> on a \<^verbatim>\<open>(key, value)\<close> pair with a hashable value and on a
  tuple of integers, the job id that \<^verbatim>\<open>dispatch_batch_to_slurm\<close> returns (it may depend on
  everything that happened before), the exception that a function run in-process raises,
  if it raises one (it may depend on everything that happened before as well), and
  whether \<^verbatim>\<open>shutil.which("sbatch")\<close> finds a binary. \<^verbatim>\<open>_get_conf\<close> and the two dispatch
  functions are taken to return normally.
\<close>

record collaborators =
  get_conf :: "pydict \<Rightarrow> pydict"
  hash_pair :: "string \<times> pyval \<Rightarrow> int"
  hash_tuple :: "int list \<Rightarrow> int"
  batch_job_id :: "event list \<Rightarrow> FunctionCall list \<Rightarrow> pydict \<Rightarrow> int"
  target_raises :: "event list \<Rightarrow> FunctionCall \<Rightarrow> exn option"
  which_sbatch :: bool

text \<open>The session: \<^verbatim>\<open>max_batch_size\<close>, \<^verbatim>\<open>_tasks\<close> and \<^verbatim>\<open>_on_completion\<close>.\<close>

record AutoBatch =
  max_batch_size :: "int option"
  tasks :: "(pydict \<times> FunctionCall list) list"
  on_completion_list :: "(pyobj \<times> pyval list \<times> pydict) list"

section \<open>\<^verbatim>\<open>HashableDict\<close>\<close>

text \<open>
  Equality is the one of \<^verbatim>\<open>dict\<close>: the same number of items, and every item of the left
  dictionary is found in the right one with an equal value.
\<close>

definition dict_eq :: "pydict \<Rightarrow> pydict \<Rightarrow> bool" where
  "dict_eq a b = (length a = length b \<and> list_all (\<lambda>(k, v). map_of b k = Some v) a)"

fun hashable :: "pyval \<Rightarrow> bool" where
  "hashable (PInt _) = True"
| "hashable (PStr _) = True"
| "hashable (PList _) = False"

text \<open>
  \<^verbatim>\<open>hash(tuple(sorted(hash((k, v)) for k, v in self.items())))\<close>: hashing a pair with an
  unhashable value raises \<^verbatim>\<open>TypeError\<close>.
\<close>

definition HashableDict_hash :: "collaborators \<Rightarrow> pydict \<Rightarrow> exn + int" where
  "HashableDict_hash env d =
     (if list_all (\<lambda>(k, v). hashable v) d
      then Inr (hash_tuple env (sort (map (hash_pair env) d)))
      else Inl TypeError)"

section \<open>\<^verbatim>\<open>AutoBatch\<close>\<close>

definition AutoBatch_init :: "int option \<Rightarrow> AutoBatch" where
  "AutoBatch_init B = \<lparr>max_batch_size = B, tasks = [], on_completion_list = []\<rparr>"

text \<open>
  \<^verbatim>\<open>self._tasks[key].append(call)\<close> on a \<^verbatim>\<open>defaultdict(list)\<close>: a stored key matches when
  its hash and the key are equal; without a match a new group is appended. The hash of
  the key has been computed before (see \<open>add\<close>).
\<close>

definition key_match :: "collaborators \<Rightarrow> pydict \<Rightarrow> pydict \<Rightarrow> bool" where
  "key_match env stored key =
     (HashableDict_hash env stored = HashableDict_hash env key \<and> dict_eq stored key)"

fun tasks_append ::
  "collaborators \<Rightarrow> (pydict \<times> FunctionCall list) list \<Rightarrow> pydict \<Rightarrow> FunctionCall
     \<Rightarrow> (pydict \<times> FunctionCall list) list" where
  "tasks_append env [] key c = [(key, [c])]"
| "tasks_append env ((k, cs) # gs) key c =
     (if key_match env k key then (k, cs @ [c]) # gs
      else (k, cs) # tasks_append env gs key c)"

text \<open>
  \<^verbatim>\<open>self._tasks.get(key, [])\<close>: the group stored under a key, by the same matching of
  keys; used to say in which group a call is.
\<close>

fun group_of ::
  "collaborators \<Rightarrow> (pydict \<times> FunctionCall list) list \<Rightarrow> pydict \<Rightarrow> FunctionCall list" where
  "group_of env [] key = []"
| "group_of env ((k, cs) # gs) key =
     (if key_match env k key then cs else group_of env gs key)"

text \<open>
  \<^verbatim>\<open>add\<close> and \<^verbatim>\<open>on_completion\<close> have the parameters \<^verbatim>\<open>(self, func, *args, **kwargs)\<close>, and
  \<^verbatim>\<open>self\<close> and \<^verbatim>\<open>func\<close> are given by position. A keyword argument named \<^verbatim>\<open>self\<close> or
  \<^verbatim>\<open>func\<close> cannot be bound: Python raises \<^verbatim>\<open>TypeError\<close> before the body runs.
\<close>

definition binds :: "pydict \<Rightarrow> bool" where
  "binds kw = (''self'' \<notin> set (map fst kw) \<and> ''func'' \<notin> set (map fst kw))"

text \<open>
  \<^verbatim>\<open>add\<close>: the \<^verbatim>\<open>isinstance\<close> check raises \<^verbatim>\<open>ValueError\<close>; the lookup in \<^verbatim>\<open>_tasks\<close> hashes the
  key first, which raises \<^verbatim>\<open>TypeError\<close> for an unhashable value before anything is stored.
\<close>

definition add ::
  "collaborators \<Rightarrow> AutoBatch \<Rightarrow> pyobj \<Rightarrow> pyval list \<Rightarrow> pydict \<Rightarrow> exn + AutoBatch" where
  "add env self func as kw =
     (if \<not> binds kw then Inl TypeError
      else case func of
        OtherObject _ \<Rightarrow> Inl ValueError
      | SlurmFunction fid opts \<Rightarrow>
          (let call = \<lparr>func_id = fid, args = as, kwargs = kw\<rparr>;
               conf = get_conf env opts
           in case HashableDict_hash env conf of
                Inl e \<Rightarrow> Inl e
              | Inr _ \<Rightarrow> Inr (self\<lparr>tasks := tasks_append env (tasks self) conf call\<rparr>)))"

definition on_completion ::
  "AutoBatch \<Rightarrow> pyobj \<Rightarrow> pyval list \<Rightarrow> pydict \<Rightarrow> exn + AutoBatch" where
  "on_completion self func as kw =
     (if \<not> binds kw then Inl TypeError
      else Inr (self\<lparr>on_completion_list := on_completion_list self @ [(func, as, kw)]\<rparr>))"

text \<open>
  \<^verbatim>\<open>SlurmFunction.call(call.func_id, *call.args, **call.kwargs)\<close>. The function
  \<^verbatim>\<open>SlurmFunction.call\<close> of \<^verbatim>\<open>slurminade/function.py\<close> takes the id as its first parameter,
  named \<^verbatim>\<open>func_id\<close>, so that a recorded keyword argument of that name cannot be bound:
  \<^verbatim>\<open>TypeError\<close>, and the function is not run. Otherwise the function is run, and it
  returns or raises.
\<close>

definition call_locally ::
  "collaborators \<Rightarrow> FunctionCall \<Rightarrow> event list \<Rightarrow> (exn + unit) \<times> event list" where
  "call_locally env c w =
     (if ''func_id'' \<in> set (map fst (kwargs c)) then (Inl TypeError, w)
      else case target_raises env w c of
             Some e \<Rightarrow> (Inl e, w @ [Call c])
           | None \<Rightarrow> (Inr (), w @ [Call c]))"

text \<open>
  \<^verbatim>\<open>run_locally\<close>: every call of every group, in the order of the groups and of the
  calls in each group, then \<^verbatim>\<open>self._tasks.clear()\<close>. An exception of a call ends the loops
  and leaves \<^verbatim>\<open>_tasks\<close> as it is.
\<close>

fun run_calls ::
  "collaborators \<Rightarrow> FunctionCall list \<Rightarrow> event list \<Rightarrow> (exn + unit) \<times> event list" where
  "run_calls env [] w = (Inr (), w)"
| "run_calls env (c # cs) w =
     (case call_locally env c w of
        (Inl e, w') \<Rightarrow> (Inl e, w')
      | (Inr _, w') \<Rightarrow> run_calls env cs w')"

fun run_groups ::
  "collaborators \<Rightarrow> (pydict \<times> FunctionCall list) list \<Rightarrow> event list
     \<Rightarrow> (exn + unit) \<times> event list" where
  "run_groups env [] w = (Inr (), w)"
| "run_groups env ((conf, calls) # gs) w =
     (case run_calls env calls w of
        (Inl e, w') \<Rightarrow> (Inl e, w')
      | (Inr _, w') \<Rightarrow> run_groups env gs w')"

definition run_locally ::
  "collaborators \<Rightarrow> AutoBatch \<Rightarrow> event list \<Rightarrow> (exn + unit) \<times> AutoBatch \<times> event list" where
  "run_locally env self w =
     (case run_groups env (tasks self) w of
        (Inl e, w') \<Rightarrow> (Inl e, self, w')
      | (Inr _, w') \<Rightarrow> (Inr (), self\<lparr>tasks := []\<rparr>, w'))"

subsection \<open>Strings\<close>

text \<open>\<^verbatim>\<open>str(j)\<close> for an integer, and \<^verbatim>\<open>sep.join(xs)\<close>.\<close>

fun str_nat :: "nat \<Rightarrow> string" where
  "str_nat n =
     (if n < 10 then [''0123456789'' ! n]
      else str_nat (n div 10) @ [''0123456789'' ! (n mod 10)])"

declare str_nat.simps [simp del]

definition str_int :: "int \<Rightarrow> string" where
  "str_int i = (if i < 0 then CHR ''-'' # str_nat (nat (- i)) else str_nat (nat i))"

fun join :: "string \<Rightarrow> string list \<Rightarrow> string" where
  "join sep [] = []"
| "join sep [x] = x"
| "join sep (x # y # ys) = x @ sep @ join sep (y # ys)"

subsection \<open>\<^verbatim>\<open>_add_on_completion_tasks\<close>\<close>

text \<open>The truth value of \<^verbatim>\<open>if dep:\<close>.\<close>

fun truthy :: "pyval \<Rightarrow> bool" where
  "truthy (PInt n) = (n \<noteq> 0)"
| "truthy (PStr s) = (s \<noteq> [])"
| "truthy (PList xs) = (xs \<noteq> [])"

text \<open>
  \<^verbatim>\<open>dep += s\<close> for a string \<^verbatim>\<open>s\<close>: concatenation on a string, \<^verbatim>\<open>TypeError\<close> on an integer;
  a list is extended by the characters of \<^verbatim>\<open>s\<close>. Python extends the list in place, so
  that the list held by the options of the function grows as well; the options are
  values here, and this change of the function object is not recorded. It concerns
  only options whose \<^verbatim>\<open>dependency\<close> is a non-empty list.
\<close>

fun iadd_str :: "pyval \<Rightarrow> string \<Rightarrow> exn + pyval" where
  "iadd_str (PStr d) s = Inr (PStr (d @ s))"
| "iadd_str (PInt n) s = Inl TypeError"
| "iadd_str (PList xs) s = Inr (PList (xs @ map (\<lambda>c. PStr [c]) s))"

definition completion_dependency :: "pydict \<Rightarrow> int list \<Rightarrow> exn + pyval" where
  "completion_dependency opts job_ids =
     (let dep = (case map_of opts ''dependency'' of None \<Rightarrow> PStr [] | Some v \<Rightarrow> v)
      in if truthy dep
         then iadd_str dep ('',afterany:'' @ join '':'' (map str_int job_ids))
         else Inr (PStr (''afterany:'' @ join '':'' (map str_int job_ids))))"

text \<open>
  The body of the loop over \<^verbatim>\<open>self._on_completion\<close>, for one entry: the single job that
  is handed to \<^verbatim>\<open>dispatch_to_slurm\<close>, with the configuration \<^verbatim>\<open>{"dependency": dep}\<close>. An
  entry whose function is not a \<^verbatim>\<open>SlurmFunction\<close> has no \<^verbatim>\<open>special_slurm_opts\<close>.
\<close>

fun completion_task :: "pyobj \<Rightarrow> pyval list \<Rightarrow> pydict \<Rightarrow> int list \<Rightarrow> exn + event" where
  "completion_task (OtherObject x) as kw job_ids = Inl AttributeError"
| "completion_task (SlurmFunction fid opts) as kw job_ids =
     (case completion_dependency opts job_ids of
        Inl e \<Rightarrow> Inl e
      | Inr dep \<Rightarrow>
          Inr (Dispatch \<lparr>func_id = fid, args = as, kwargs = kw\<rparr> [(''dependency'', dep)]))"

text \<open>The loop; an exception ends it.\<close>

fun completion_loop ::
  "(pyobj \<times> pyval list \<times> pydict) list \<Rightarrow> int list \<Rightarrow> event list
     \<Rightarrow> (exn + unit) \<times> event list" where
  "completion_loop [] job_ids w = (Inr (), w)"
| "completion_loop ((sfunc, as, kw) # rest) job_ids w =
     (case completion_task sfunc as kw job_ids of
        Inl e \<Rightarrow> (Inl e, w)
      | Inr ev \<Rightarrow> completion_loop rest job_ids (w @ [ev]))"

definition add_on_completion_tasks ::
  "AutoBatch \<Rightarrow> int list \<Rightarrow> event list \<Rightarrow> (exn + unit) \<times> event list" where
  "add_on_completion_tasks self job_ids w = completion_loop (on_completion_list self) job_ids w"

subsection \<open>\<^verbatim>\<open>distribute\<close>\<close>

text \<open>The slices \<^verbatim>\<open>xs[:n]\<close> and \<^verbatim>\<open>xs[n:]\<close>; a negative \<^verbatim>\<open>n\<close> counts from the end.\<close>

definition slice_to :: "'a list \<Rightarrow> int \<Rightarrow> 'a list" where
  "slice_to xs n = (if 0 \<le> n then take (nat n) xs else take (nat (int (length xs) + n)) xs)"

definition slice_from :: "'a list \<Rightarrow> int \<Rightarrow> 'a list" where
  "slice_from xs n = (if 0 \<le> n then drop (nat n) xs else drop (nat (int (length xs) + n)) xs)"

text \<open>The loop of the branch \<^verbatim>\<open>max_batch_size is None\<close>: one job for each group.\<close>

fun dispatch_groups ::
  "collaborators \<Rightarrow> (pydict \<times> FunctionCall list) list \<Rightarrow> int list \<Rightarrow> event list
     \<Rightarrow> int list \<times> event list" where
  "dispatch_groups env [] job_ids w = (job_ids, w)"
| "dispatch_groups env ((conf, calls) # gs) job_ids w =
     dispatch_groups env gs (job_ids @ [batch_job_id env w calls conf])
       (w @ [DispatchBatch calls conf])"

text \<open>
  \<^verbatim>\<open>while calls:\<close> submits \<^verbatim>\<open>calls[:max_batch_size]\<close> and continues with
  \<^verbatim>\<open>calls[max_batch_size:]\<close>. The loop need not end; \<open>None\<close> is the run that never
  returns.
\<close>

partial_function (option) chunk_loop ::
  "collaborators \<Rightarrow> int \<Rightarrow> pydict \<Rightarrow> FunctionCall list \<Rightarrow> int list \<Rightarrow> event list
     \<Rightarrow> (int list \<times> event list) option" where
  "chunk_loop env B conf calls job_ids w =
     (if calls = [] then Some (job_ids, w)
      else chunk_loop env B conf (slice_from calls B)
             (job_ids @ [batch_job_id env w (slice_to calls B) conf])
             (w @ [DispatchBatch (slice_to calls B) conf]))"

declare chunk_loop.simps [code]

fun chunk_groups ::
  "collaborators \<Rightarrow> int \<Rightarrow> (pydict \<times> FunctionCall list) list \<Rightarrow> int list \<Rightarrow> event list
     \<Rightarrow> (int list \<times> event list) option" where
  "chunk_groups env B [] job_ids w = Some (job_ids, w)"
| "chunk_groups env B ((conf, calls) # gs) job_ids w =
     (case chunk_loop env B conf calls job_ids w of
        None \<Rightarrow> None
      | Some (job_ids', w') \<Rightarrow> chunk_groups env B gs job_ids' w')"

text \<open>
  \<^verbatim>\<open>distribute\<close> returns the job ids, or raises what \<^verbatim>\<open>_add_on_completion_tasks\<close> raises
  (after \<^verbatim>\<open>self._tasks.clear()\<close>).
\<close>

definition distribute ::
  "collaborators \<Rightarrow> AutoBatch \<Rightarrow> event list
     \<Rightarrow> ((exn + int list) \<times> AutoBatch \<times> event list) option" where
  "distribute env self w =
     (case (case max_batch_size self of
              None \<Rightarrow> Some (dispatch_groups env (tasks self) [] w)
            | Some B \<Rightarrow> chunk_groups env B (tasks self) [] w) of
        None \<Rightarrow> None
      | Some (job_ids, w1) \<Rightarrow>
          (let self1 = self\<lparr>tasks := []\<rparr>
           in case add_on_completion_tasks self1 job_ids w1 of
                (Inl e, w2) \<Rightarrow> Some (Inl e, self1, w2)
              | (Inr _, w2) \<Rightarrow> Some (Inr job_ids, self1, w2)))"

subsection \<open>Leaving the scope\<close>

text \<open>
  \<^verbatim>\<open>__exit__(exc_type, exc_val, exc_tb)\<close>. The first argument is the exception of the body,
  if it raised one. The boolean of the result is the truth value of what \<^verbatim>\<open>__exit__\<close>
  returns; every path returns \<^verbatim>\<open>None\<close>.
\<close>

definition AutoBatch_exit ::
  "collaborators \<Rightarrow> AutoBatch \<Rightarrow> exn option \<Rightarrow> event list
     \<Rightarrow> ((exn + bool) \<times> AutoBatch \<times> event list) option" where
  "AutoBatch_exit env self exc w =
     (case exc of
        Some _ \<Rightarrow> Some (Inr False, self, w @ [Print ''Aborted due to exception.''])
      | None \<Rightarrow>
          if \<not> which_sbatch env
          then (case run_locally env self
                       (w @ [Print ''No Slurm environment available. Running batch locally.''])
                of (Inl e, self1, w1) \<Rightarrow> Some (Inl e, self1, w1)
                 | (Inr _, self1, w1) \<Rightarrow> Some (Inr False, self1, w1))
          else (case distribute env self w of
                  None \<Rightarrow> None
                | Some (Inl e, self1, w1) \<Rightarrow> Some (Inl e, self1, w1)
                | Some (Inr _, self1, w1) \<Rightarrow> Some (Inr False, self1, w1)))"

text \<open>
  The end of a \<^verbatim>\<open>with AutoBatch(...) as b:\<close> block, as Python defines it: \<^verbatim>\<open>__exit__\<close> is
  called with the exception of the body, and that exception is raised again unless
  \<^verbatim>\<open>__exit__\<close> returned a true value.
\<close>

definition with_exit ::
  "collaborators \<Rightarrow> AutoBatch \<Rightarrow> exn option \<Rightarrow> event list
     \<Rightarrow> ((exn + unit) \<times> AutoBatch \<times> event list) option" where
  "with_exit env self body w =
     (case AutoBatch_exit env self body w of
        None \<Rightarrow> None
      | Some (Inl e, self1, w1) \<Rightarrow> Some (Inl e, self1, w1)
      | Some (Inr suppress, self1, w1) \<Rightarrow>
          (case body of
             None \<Rightarrow> Some (Inr (), self1, w1)
           | Some e \<Rightarrow> if suppress then Some (Inr (), self1, w1) else Some (Inl e, self1, w1)))"

section \<open>Callers and example values\<close>

text \<open>
  A caller that adds one invocation after the other, each given by the \<^verbatim>\<open>func_id\<close> and the
  \<^verbatim>\<open>special_slurm_opts\<close> of its \<^verbatim>\<open>SlurmFunction\<close> and by its arguments; the first exception
  ends it.
\<close>

type_synonym invocation = "string \<times> pydict \<times> pyval list \<times> pydict"

fun add_all :: "collaborators \<Rightarrow> AutoBatch \<Rightarrow> invocation list \<Rightarrow> exn + AutoBatch" where
  "add_all env self [] = Inr self"
| "add_all env self ((fid, opts, as, kw) # xs) =
     (case add env self (SlurmFunction fid opts) as kw of
        Inl e \<Rightarrow> Inl e
      | Inr self' \<Rightarrow> add_all env self' xs)"

text \<open>The configuration under which an invocation is grouped, and the call recorded for it.\<close>

fun conf_of :: "collaborators \<Rightarrow> invocation \<Rightarrow> pydict" where
  "conf_of env (fid, opts, as, kw) = get_conf env opts"

fun call_of :: "invocation \<Rightarrow> FunctionCall" where
  "call_of (fid, opts, as, kw) = \<lparr>func_id = fid, args = as, kwargs = kw\<rparr>"

text \<open>
  Example collaborators: \<^verbatim>\<open>_get_conf\<close> adds nothing to the options, job ids count up from
  10 with the number of events so far, no function run in-process raises, and \<^verbatim>\<open>sbatch\<close>
  is found.
\<close>

definition example_env :: collaborators where
  "example_env =
     \<lparr>get_conf = (\<lambda>opts. opts),
      hash_pair = (\<lambda>(k, v). int (length k)),
      hash_tuple = sum_list,
      batch_job_id = (\<lambda>w calls conf. 10 + int (length w)),
      target_raises = (\<lambda>w c. None),
      which_sbatch = True\<rparr>"

definition example_call :: "int \<Rightarrow> FunctionCall" where
  "example_call n = \<lparr>func_id = ''f'', args = [PInt n], kwargs = []\<rparr>"

text \<open>
  Five invocations under one configuration, \<^verbatim>\<open>max_batch_size = 2\<close>, and one function
  registered with \<^verbatim>\<open>on_completion\<close> whose options carry the dependency \<^verbatim>\<open>afterok:5\<close>.
\<close>

definition example_session :: AutoBatch where
  "example_session =
     \<lparr>max_batch_size = Some 2,
      tasks = [([(''cpus'', PInt 2)],
                [example_call 1, example_call 2, example_call 3, example_call 4,
                 example_call 5])],
      on_completion_list =
        [(SlurmFunction ''g'' [(''dependency'', PStr ''afterok:5'')], [], [])]\<rparr>"

text \<open>
  Three invocations: \<^verbatim>\<open>f\<close> and \<^verbatim>\<open>h\<close> have the same options, written in a different order,
  and \<^verbatim>\<open>g\<close> has other options.
\<close>

definition example_invocations :: "invocation list" where
  "example_invocations =
     [(''f'', [(''cpus'', PInt 2), (''mem'', PStr ''1G'')], [PInt 1], []),
      (''g'', [(''cpus'', PInt 4)], [], []),
      (''h'', [(''mem'', PStr ''1G''), (''cpus'', PInt 2)], [PInt 2], [])]"

text \<open>
  Collaborators without \<^verbatim>\<open>sbatch\<close> where the function run for the second example call
  raises an exception.
\<close>

definition failing_env :: collaborators where
  "failing_env =
     example_env
       \<lparr>target_raises :=
          (\<lambda>w c. if c = example_call 2 then Some (TargetException ''fail'') else None),
        which_sbatch := False\<rparr>"

text \<open>The session after \<^verbatim>\<open>add(f, func_id=3)\<close> on a new session.\<close>

definition func_id_session :: AutoBatch where
  "func_id_session =
     \<lparr>max_batch_size = None,
      tasks = [([], [\<lparr>func_id = ''f'', args = [], kwargs = [(''func_id'', PInt 3)]\<rparr>])],
      on_completion_list = []\<rparr>"

section \<open>The batch loops of \<^verbatim>\<open>distribute\<close>\<close>

lemma slice_pos: "1 \<le> B \<Longrightarrow> slice_to xs B = take (nat B) xs \<and> slice_from xs B = drop (nat B) xs"
  by (simp add: slice_to_def slice_from_def)

lemma chunk_loop_chunks:
  assumes "1 \<le> B"
  shows "\<exists>chs js. chunk_loop env B conf calls job_ids w
            = Some (job_ids @ js, w @ map (\<lambda>ch. DispatchBatch ch conf) chs)
         \<and> length js = length chs \<and> concat chs = calls
         \<and> (\<forall>ch \<in> set chs. ch \<noteq> [] \<and> int (length ch) \<le> B)
         \<and> (\<forall>ch \<in> set (butlast chs). int (length ch) = B)"
proof (induction calls arbitrary: job_ids w rule: length_induct)
  case (1 calls)
  show ?case
  proof (cases "calls = []")
    case True
    have "chunk_loop env B conf calls job_ids w = Some (job_ids @ [], w @ map (\<lambda>ch. DispatchBatch ch conf) [])"
      using True by (simp add: chunk_loop.simps)
    then show ?thesis using True by (intro exI[of _ "[]"]) simp
  next
    case False
    let ?hd = "take (nat B) calls"
    let ?tl = "drop (nat B) calls"
    let ?j = "batch_job_id env w ?hd conf"
    have pos: "0 < nat B" using assms by simp
    have shorter: "length ?tl < length calls" using False pos by simp
    from 1 shorter obtain chs js where
      run: "chunk_loop env B conf ?tl (job_ids @ [?j]) (w @ [DispatchBatch ?hd conf])
            = Some ((job_ids @ [?j]) @ js, (w @ [DispatchBatch ?hd conf]) @ map (\<lambda>ch. DispatchBatch ch conf) chs)"
      and len: "length js = length chs" and cat: "concat chs = ?tl"
      and bound: "\<forall>ch \<in> set chs. ch \<noteq> [] \<and> int (length ch) \<le> B"
      and full: "\<forall>ch \<in> set (butlast chs). int (length ch) = B"
      by blast
    have step: "chunk_loop env B conf calls job_ids w
          = Some (job_ids @ (?j # js), w @ map (\<lambda>ch. DispatchBatch ch conf) (?hd # chs))"
      using False run assms by (subst chunk_loop.simps) (simp add: slice_pos)
    have hd_ne: "?hd \<noteq> []" using False pos by simp
    have hd_le: "int (length ?hd) \<le> B" using assms by simp
    have hd_full: "chs \<noteq> [] \<Longrightarrow> int (length ?hd) = B"
    proof -
      assume "chs \<noteq> []"
      then obtain c where "c \<in> set chs" by (cases chs) auto
      with bound have "c \<noteq> []" by blast
      with \<open>c \<in> set chs\<close> cat have "?tl \<noteq> []" by auto
      then have "nat B < length calls" by simp
      then show ?thesis using assms by simp
    qed
    show ?thesis
      apply (intro exI[of _ "?hd # chs"] exI[of _ "?j # js"])
      using step len cat bound full hd_ne hd_le hd_full by auto
  qed
qed

lemma chunk_loop_Some_not_zero:
  assumes "chunk_loop env B conf calls job_ids w = Some y"
  shows "\<not> (B = 0 \<and> calls \<noteq> [])"
proof (rule chunk_loop.raw_induct[where P = "\<lambda>env B conf calls job_ids w y. \<not> (B = 0 \<and> calls \<noteq> [])", OF _ assms])
  fix loop :: "collaborators \<Rightarrow> int \<Rightarrow> pydict \<Rightarrow> FunctionCall list \<Rightarrow> int list
                 \<Rightarrow> event list \<Rightarrow> (int list \<times> event list) option"
  fix env B conf calls job_ids w y
  assume IH: "\<And>env B conf calls job_ids w y. loop env B conf calls job_ids w = Some y \<Longrightarrow> \<not> (B = 0 \<and> calls \<noteq> [])"
  assume  body: "(if calls = [] then Some (job_ids, w)
      else loop env B conf (slice_from calls B)
             (job_ids @ [batch_job_id env w (slice_to calls B) conf])
             (w @ [DispatchBatch (slice_to calls B) conf])) = Some y"
  show "\<not> (B = 0 \<and> calls \<noteq> [])"
  proof
    assume stuck: "B = 0 \<and> calls \<noteq> []"
    then have "slice_from calls B = calls" by (simp add: slice_from_def)
    with stuck body have "loop env B conf calls (job_ids @ [batch_job_id env w (slice_to calls B) conf])
        (w @ [DispatchBatch (slice_to calls B) conf]) = Some y"
      by simp
    from IH[OF this] stuck show False by simp
  qed
qed

lemma chunk_loop_zero: "calls \<noteq> [] \<Longrightarrow> chunk_loop env 0 conf calls job_ids w = None"
  using chunk_loop_Some_not_zero [of env 0 conf calls job_ids w]
  by (cases "chunk_loop env 0 conf calls job_ids w") auto

lemma chunk_groups_zero:
  "\<exists>(c, calls) \<in> set gs. calls \<noteq> [] \<Longrightarrow> chunk_groups env 0 gs job_ids w = None"
proof (induction gs arbitrary: job_ids w)
  case Nil
  then show ?case by simp
next
  case (Cons g gs)
  obtain conf calls where g: "g = (conf, calls)" by (cases g)
  show ?case
  proof (cases "calls = []")
    case True
    with Cons.prems g have "\<exists>(c, calls) \<in> set gs. calls \<noteq> []" by auto
    from Cons.IH[OF this] show ?thesis using g True by (simp add: chunk_loop.simps)
  next
    case False
    then show ?thesis using g by (simp add: chunk_loop_zero)
  qed
qed

lemma chunk_groups_chunks:
  assumes "1 \<le> B"
  shows "\<exists>chunking js. chunk_groups env B gs job_ids w
            = Some (job_ids @ js,
                    w @ concat (map (\<lambda>(conf, chs). map (\<lambda>ch. DispatchBatch ch conf) chs) chunking))
         \<and> length js = length (concat (map snd chunking))
         \<and> map fst chunking = map fst gs
         \<and> map (\<lambda>(conf, chs). concat chs) chunking = map snd gs
         \<and> (\<forall>(conf, chs) \<in> set chunking.
              (\<forall>ch \<in> set chs. ch \<noteq> [] \<and> int (length ch) \<le> B)
            \<and> (\<forall>ch \<in> set (butlast chs). int (length ch) = B))"
proof (induction gs arbitrary: job_ids w)
  case Nil
  show ?case by (intro exI[of _ "[]"]) simp
next
  case (Cons g gs)
  obtain conf calls where g: "g = (conf, calls)" by (cases g)
  from chunk_loop_chunks[OF assms, of env conf calls job_ids w]
  obtain chs js where
    run: "chunk_loop env B conf calls job_ids w
            = Some (job_ids @ js, w @ map (\<lambda>ch. DispatchBatch ch conf) chs)"
    and len: "length js = length chs" and cat: "concat chs = calls"
    and bound: "\<forall>ch \<in> set chs. ch \<noteq> [] \<and> int (length ch) \<le> B"
    and full: "\<forall>ch \<in> set (butlast chs). int (length ch) = B"
    by blast
  from Cons.IH[of "job_ids @ js" "w @ map (\<lambda>ch. DispatchBatch ch conf) chs"]
  obtain chunking js' where
    rest: "chunk_groups env B gs (job_ids @ js) (w @ map (\<lambda>ch. DispatchBatch ch conf) chs)
            = Some ((job_ids @ js) @ js',
                    (w @ map (\<lambda>ch. DispatchBatch ch conf) chs)
                      @ concat (map (\<lambda>(conf, chs). map (\<lambda>ch. DispatchBatch ch conf) chs) chunking))"
    and len': "length js' = length (concat (map snd chunking))"
    and keys: "map fst chunking = map fst gs"
    and cats: "map (\<lambda>(conf, chs). concat chs) chunking = map snd gs"
    and bounds: "\<forall>(conf, chs) \<in> set chunking.
              (\<forall>ch \<in> set chs. ch \<noteq> [] \<and> int (length ch) \<le> B)
            \<and> (\<forall>ch \<in> set (butlast chs). int (length ch) = B)"
    by blast
  show ?case
    apply (intro exI[of _ "(conf, chs) # chunking"] exI[of _ "js @ js'"])
    using g run rest len len' keys cats cat bound full bounds by simp
qed

lemma dispatch_groups_eq:
  "\<exists>js. dispatch_groups env gs job_ids w
       = (job_ids @ js, w @ map (\<lambda>(conf, calls). DispatchBatch calls conf) gs)
     \<and> length js = length gs"
proof (induction gs arbitrary: job_ids w)
  case Nil
  show ?case by simp
next
  case (Cons g gs)
  obtain conf calls where g: "g = (conf, calls)" by (cases g)
  from Cons.IH[of "job_ids @ [batch_job_id env w calls conf]" "w @ [DispatchBatch calls conf]"]
  obtain js where "dispatch_groups env gs (job_ids @ [batch_job_id env w calls conf]) (w @ [DispatchBatch calls conf])
       = ((job_ids @ [batch_job_id env w calls conf]) @ js, (w @ [DispatchBatch calls conf]) @ map (\<lambda>(conf, calls). DispatchBatch calls conf) gs)"
     and "length js = length gs" by blast
  then show ?case using g
    by (intro exI[of _ "batch_job_id env w calls conf # js"]) simp
qed

lemma completion_task_event:
  "completion_task sfunc as kw job_ids = Inr ev \<Longrightarrow> \<exists>c d. ev = Dispatch c d"
  by (cases sfunc) (auto split: sum.splits)

lemma completion_loop_trace:
  "\<exists>r evs. completion_loop entries job_ids w = (r, w @ evs) \<and> (\<forall>e \<in> set evs. \<exists>c d. e = Dispatch c d)"
proof (induction entries arbitrary: w)
  case Nil
  show ?case by simp
next
  case (Cons entry entries)
  obtain sfunc as kw where entry: "entry = (sfunc, as, kw)" by (cases entry)
  show ?case
  proof (cases "completion_task sfunc as kw job_ids")
    case (Inl e)
    then show ?thesis using entry by simp
  next
    case (Inr ev)
    from Cons.IH[of "w @ [ev]"] obtain r evs where
      "completion_loop entries job_ids (w @ [ev]) = (r, (w @ [ev]) @ evs)"
      and "\<forall>e \<in> set evs. \<exists>c d. e = Dispatch c d" by blast
    then show ?thesis using entry Inr completion_task_event[OF Inr]
      by (intro exI[of _ r] exI[of _ "ev # evs"]) auto
  qed
qed

lemma distribute_after_batches:
  assumes "(case max_batch_size self of
              None \<Rightarrow> Some (dispatch_groups env (tasks self) [] w)
            | Some B \<Rightarrow> chunk_groups env B (tasks self) [] w) = Some (js, w1)"
  shows "\<exists>r w2. distribute env self w = Some (r, self\<lparr>tasks := []\<rparr>, w1 @ w2)
           \<and> (r = Inr js \<or> (\<exists>e. r = Inl e))
           \<and> (\<forall>e \<in> set w2. \<exists>c d. e = Dispatch c d)"
proof -
  from completion_loop_trace[of "on_completion_list self" js w1] obtain r evs where
    loop: "completion_loop (on_completion_list self) js w1 = (r, w1 @ evs)"
    and evs: "\<forall>e \<in> set evs. \<exists>c d. e = Dispatch c d" by blast
  show ?thesis
  proof (cases r)
    case (Inl e)
    with loop assms have "distribute env self w = Some (Inl e, self\<lparr>tasks := []\<rparr>, w1 @ evs)"
      by (simp add: distribute_def add_on_completion_tasks_def)
    with evs show ?thesis by blast
  next
    case (Inr u)
    with loop assms have "distribute env self w = Some (Inr js, self\<lparr>tasks := []\<rparr>, w1 @ evs)"
      by (simp add: distribute_def add_on_completion_tasks_def)
    with evs show ?thesis by blast
  qed
qed


section \<open>Termination of \<^verbatim>\<open>distribute\<close>\<close>

text \<open>
  C10: \<^verbatim>\<open>distribute\<close> returns for every session whose \<^verbatim>\<open>max_batch_size\<close> is \<^verbatim>\<open>None\<close> or an
  integer of at least 1, since each step of the chunking loop makes the remaining list of
  the group strictly shorter. With \<^verbatim>\<open>max_batch_size = 0\<close> a step removes nothing from a
  non-empty group, the loop never ends, and neither does \<^verbatim>\<open>distribute\<close> on a session
  with a non-empty group.
\<close>

theorem distribute_terminates:
  "((max_batch_size self = None \<or> (\<exists>B. max_batch_size self = Some B \<and> 1 \<le> B))
      \<longrightarrow> (\<exists>r. distribute env self w = Some r))
   \<and> (1 \<le> B \<and> calls \<noteq> [] \<longrightarrow> length (slice_from calls B) < length calls)
   \<and> (calls \<noteq> []
      \<longrightarrow> slice_from calls 0 = calls \<and> chunk_loop env 0 conf calls job_ids w = None)
   \<and> (max_batch_size self = Some 0 \<and> (\<exists>(conf, calls) \<in> set (tasks self). calls \<noteq> [])
      \<longrightarrow> distribute env self w = None)"
proof (intro conjI impI)
  assume "max_batch_size self = None \<or> (\<exists>B. max_batch_size self = Some B \<and> 1 \<le> B)"
  then have "\<exists>js w1. (case max_batch_size self of
              None \<Rightarrow> Some (dispatch_groups env (tasks self) [] w)
            | Some B \<Rightarrow> chunk_groups env B (tasks self) [] w) = Some (js, w1)"
  proof
    assume "max_batch_size self = None"
    then show ?thesis by (cases "dispatch_groups env (tasks self) [] w") simp
  next
    assume "\<exists>B. max_batch_size self = Some B \<and> 1 \<le> B"
    then obtain B where B: "max_batch_size self = Some B" "1 \<le> B" by blast
    from chunk_groups_chunks[OF B(2), of env "tasks self" "[]" w] B(1)
    show ?thesis by auto
  qed
  then obtain js w1 where "(case max_batch_size self of
              None \<Rightarrow> Some (dispatch_groups env (tasks self) [] w)
            | Some B \<Rightarrow> chunk_groups env B (tasks self) [] w) = Some (js, w1)" by blast
  from distribute_after_batches[OF this] show "\<exists>r. distribute env self w = Some r" by blast
next
  assume "1 \<le> B \<and> calls \<noteq> []"
  then show "length (slice_from calls B) < length calls"
    by (simp add: slice_from_def)
next
  assume "calls \<noteq> []"
  then show "slice_from calls 0 = calls" by (simp add: slice_from_def)
next
  assume "calls \<noteq> []"
  then show "chunk_loop env 0 conf calls job_ids w = None" by (rule chunk_loop_zero)
next
  assume "max_batch_size self = Some 0 \<and> (\<exists>(conf, calls) \<in> set (tasks self). calls \<noteq> [])"
  then show "distribute env self w = None"
    by (simp add: distribute_def chunk_groups_zero)
qed

theorem distribute_terminates_witness:
  "(\<exists>r. distribute example_env example_session [] = Some r)
   \<and> length (slice_from [example_call 1, example_call 2, example_call 3] 2)
       < length [example_call 1, example_call 2, example_call 3]
   \<and> chunk_loop example_env 0 [] [example_call 1] [] [] = None
   \<and> distribute example_env (example_session\<lparr>max_batch_size := Some 0\<rparr>) [] = None"
  using distribute_terminates [where self = example_session and env = example_env and w = "[]"
          and B = 2 and calls = "[example_call 1, example_call 2, example_call 3]"
          and conf = "[]" and job_ids = "[]"]
        distribute_terminates [where self = "example_session\<lparr>max_batch_size := Some 0\<rparr>"
          and env = example_env and w = "[]" and B = 2 and calls = "[example_call 1]"
          and conf = "[]" and job_ids = "[]"]
  by (simp add: example_session_def)

section \<open>Chunking\<close>

text \<open>
  C1: with a bound \<open>B \<ge> 1\<close>, \<^verbatim>\<open>distribute\<close> submits, group after group, consecutive chunks of
  the group: each chunk is non-empty and has at most \<open>B\<close> calls, every chunk but the last
  of a group has exactly \<open>B\<close>, and the chunks of a group concatenated in order are the
  group. Without a bound each group is submitted as one job. All batch jobs are
  submitted before the jobs of \<^verbatim>\<open>on_completion\<close>, and there is one job id for each batch
  job. Five calls under one configuration with \<^verbatim>\<open>max_batch_size = 2\<close> give three jobs with
  2, 2 and 1 calls.
\<close>

theorem distribute_chunks:
  "(max_batch_size self = None \<longrightarrow>
      (\<exists>js r w2.
         distribute env self w
           = Some (r, self\<lparr>tasks := []\<rparr>,
                   w @ map (\<lambda>(conf, calls). DispatchBatch calls conf) (tasks self) @ w2)
       \<and> (r = Inr js \<or> (\<exists>e. r = Inl e))
       \<and> length js = length (tasks self)
       \<and> (\<forall>e \<in> set w2. \<exists>c d. e = Dispatch c d)))
   \<and> (max_batch_size self = Some B \<and> 1 \<le> B \<longrightarrow>
      (\<exists>chunking js r w2.
         distribute env self w
           = Some (r, self\<lparr>tasks := []\<rparr>,
                   w @ concat (map (\<lambda>(conf, chs). map (\<lambda>ch. DispatchBatch ch conf) chs) chunking)
                     @ w2)
       \<and> (r = Inr js \<or> (\<exists>e. r = Inl e))
       \<and> length js = length (concat (map snd chunking))
       \<and> map fst chunking = map fst (tasks self)
       \<and> map (\<lambda>(conf, chs). concat chs) chunking = map snd (tasks self)
       \<and> (\<forall>(conf, chs) \<in> set chunking.
            (\<forall>ch \<in> set chs. ch \<noteq> [] \<and> int (length ch) \<le> B)
          \<and> (\<forall>ch \<in> set (butlast chs). int (length ch) = B))
       \<and> (\<forall>e \<in> set w2. \<exists>c d. e = Dispatch c d)))
   \<and> (max_batch_size self = Some 2 \<and> tasks self = [(conf, [c1, c2, c3, c4, c5])]
        \<and> on_completion_list self = [] \<longrightarrow>
      (\<exists>j1 j2 j3.
         distribute env self w
           = Some (Inr [j1, j2, j3], self\<lparr>tasks := []\<rparr>,
                   w @ [DispatchBatch [c1, c2] conf, DispatchBatch [c3, c4] conf,
                        DispatchBatch [c5] conf])))"
proof (intro conjI impI)
  assume none: "max_batch_size self = None"
  from dispatch_groups_eq[of env "tasks self" "[]" w] obtain js where
    run: "dispatch_groups env (tasks self) [] w
            = ([] @ js, w @ map (\<lambda>(conf, calls). DispatchBatch calls conf) (tasks self))"
    and len: "length js = length (tasks self)" by blast
  from none run have "(case max_batch_size self of
              None \<Rightarrow> Some (dispatch_groups env (tasks self) [] w)
            | Some B \<Rightarrow> chunk_groups env B (tasks self) [] w)
          = Some (js, w @ map (\<lambda>(conf, calls). DispatchBatch calls conf) (tasks self))"
    by simp
  from distribute_after_batches[OF this] len
  show "\<exists>js r w2.
         distribute env self w
           = Some (r, self\<lparr>tasks := []\<rparr>,
                   w @ map (\<lambda>(conf, calls). DispatchBatch calls conf) (tasks self) @ w2)
       \<and> (r = Inr js \<or> (\<exists>e. r = Inl e))
       \<and> length js = length (tasks self)
       \<and> (\<forall>e \<in> set w2. \<exists>c d. e = Dispatch c d)"
    by (metis append.assoc)
next
  assume "max_batch_size self = Some B \<and> 1 \<le> B"
  then have some: "max_batch_size self = Some B" and pos: "1 \<le> B" by simp_all
  from chunk_groups_chunks[OF pos, of env "tasks self" "[]" w] obtain chunking js where
    run: "chunk_groups env B (tasks self) [] w
            = Some ([] @ js,
                    w @ concat (map (\<lambda>(conf, chs). map (\<lambda>ch. DispatchBatch ch conf) chs) chunking))"
    and len: "length js = length (concat (map snd chunking))"
    and keys: "map fst chunking = map fst (tasks self)"
    and cats: "map (\<lambda>(conf, chs). concat chs) chunking = map snd (tasks self)"
    and bounds: "\<forall>(conf, chs) \<in> set chunking.
            (\<forall>ch \<in> set chs. ch \<noteq> [] \<and> int (length ch) \<le> B)
          \<and> (\<forall>ch \<in> set (butlast chs). int (length ch) = B)"
    by blast
  from some run have "(case max_batch_size self of
              None \<Rightarrow> Some (dispatch_groups env (tasks self) [] w)
            | Some B \<Rightarrow> chunk_groups env B (tasks self) [] w)
          = Some (js, w @ concat (map (\<lambda>(conf, chs). map (\<lambda>ch. DispatchBatch ch conf) chs) chunking))"
    by simp
  from distribute_after_batches[OF this] obtain r w2 where
    "distribute env self w = Some (r, self\<lparr>tasks := []\<rparr>,
        (w @ concat (map (\<lambda>(conf, chs). map (\<lambda>ch. DispatchBatch ch conf) chs) chunking)) @ w2)"
    and "r = Inr js \<or> (\<exists>e. r = Inl e)" and "\<forall>e \<in> set w2. \<exists>c d. e = Dispatch c d"
    by blast
  with len keys cats bounds
  show "\<exists>chunking js r w2.
         distribute env self w
           = Some (r, self\<lparr>tasks := []\<rparr>,
                   w @ concat (map (\<lambda>(conf, chs). map (\<lambda>ch. DispatchBatch ch conf) chs) chunking)
                     @ w2)
       \<and> (r = Inr js \<or> (\<exists>e. r = Inl e))
       \<and> length js = length (concat (map snd chunking))
       \<and> map fst chunking = map fst (tasks self)
       \<and> map (\<lambda>(conf, chs). concat chs) chunking = map snd (tasks self)
       \<and> (\<forall>(conf, chs) \<in> set chunking.
            (\<forall>ch \<in> set chs. ch \<noteq> [] \<and> int (length ch) \<le> B)
          \<and> (\<forall>ch \<in> set (butlast chs). int (length ch) = B))
       \<and> (\<forall>e \<in> set w2. \<exists>c d. e = Dispatch c d)"
    by (intro exI[of _ chunking] exI[of _ js] exI[of _ r] exI[of _ w2]) simp
next
  assume "max_batch_size self = Some 2 \<and> tasks self = [(conf, [c1, c2, c3, c4, c5])]
        \<and> on_completion_list self = []"
  then show "\<exists>j1 j2 j3.
         distribute env self w
           = Some (Inr [j1, j2, j3], self\<lparr>tasks := []\<rparr>,
                   w @ [DispatchBatch [c1, c2] conf, DispatchBatch [c3, c4] conf,
                        DispatchBatch [c5] conf])"
    by (simp add: distribute_def chunk_loop.simps slice_to_def slice_from_def
          add_on_completion_tasks_def)
qed

theorem distribute_chunks_witness:
  "(\<exists>js r w2.
      distribute example_env (example_session\<lparr>max_batch_size := None\<rparr>) []
        = Some (r, example_session\<lparr>max_batch_size := None, tasks := []\<rparr>,
                map (\<lambda>(conf, calls). DispatchBatch calls conf) (tasks example_session) @ w2)
      \<and> (r = Inr js \<or> (\<exists>e. r = Inl e)) \<and> length js = 1)
   \<and> (\<exists>chunking js r w2.
         distribute example_env example_session []
           = Some (r, example_session\<lparr>tasks := []\<rparr>,
                   concat (map (\<lambda>(conf, chs). map (\<lambda>ch. DispatchBatch ch conf) chs) chunking) @ w2)
       \<and> map (\<lambda>(conf, chs). concat chs) chunking = map snd (tasks example_session)
       \<and> (\<forall>(conf, chs) \<in> set chunking.
            (\<forall>ch \<in> set chs. ch \<noteq> [] \<and> int (length ch) \<le> 2)
          \<and> (\<forall>ch \<in> set (butlast chs). int (length ch) = 2)))
   \<and> (\<exists>j1 j2 j3.
         distribute example_env (example_session\<lparr>on_completion_list := []\<rparr>) []
           = Some (Inr [j1, j2, j3], example_session\<lparr>on_completion_list := [], tasks := []\<rparr>,
                   [DispatchBatch [example_call 1, example_call 2] [(''cpus'', PInt 2)],
                    DispatchBatch [example_call 3, example_call 4] [(''cpus'', PInt 2)],
                    DispatchBatch [example_call 5] [(''cpus'', PInt 2)]]))"
proof (intro conjI)
  show "\<exists>js r w2.
      distribute example_env (example_session\<lparr>max_batch_size := None\<rparr>) []
        = Some (r, example_session\<lparr>max_batch_size := None, tasks := []\<rparr>,
                map (\<lambda>(conf, calls). DispatchBatch calls conf) (tasks example_session) @ w2)
      \<and> (r = Inr js \<or> (\<exists>e. r = Inl e)) \<and> length js = 1"
    using distribute_chunks [where self = "example_session\<lparr>max_batch_size := None\<rparr>"
            and env = example_env and w = "[]"]
    by (simp add: example_session_def) blast
  show "\<exists>chunking js r w2.
         distribute example_env example_session []
           = Some (r, example_session\<lparr>tasks := []\<rparr>,
                   concat (map (\<lambda>(conf, chs). map (\<lambda>ch. DispatchBatch ch conf) chs) chunking) @ w2)
       \<and> map (\<lambda>(conf, chs). concat chs) chunking = map snd (tasks example_session)
       \<and> (\<forall>(conf, chs) \<in> set chunking.
            (\<forall>ch \<in> set chs. ch \<noteq> [] \<and> int (length ch) \<le> 2)
          \<and> (\<forall>ch \<in> set (butlast chs). int (length ch) = 2))"
    using distribute_chunks [where self = example_session and env = example_env and w = "[]"
            and B = 2]
    by (simp add: example_session_def) (metis (no_types, lifting))
  show "\<exists>j1 j2 j3.
         distribute example_env (example_session\<lparr>on_completion_list := []\<rparr>) []
           = Some (Inr [j1, j2, j3], example_session\<lparr>on_completion_list := [], tasks := []\<rparr>,
                   [DispatchBatch [example_call 1, example_call 2] [(''cpus'', PInt 2)],
                    DispatchBatch [example_call 3, example_call 4] [(''cpus'', PInt 2)],
                    DispatchBatch [example_call 5] [(''cpus'', PInt 2)]])"
    using distribute_chunks [where self = "example_session\<lparr>on_completion_list := []\<rparr>"
            and env = example_env and w = "[]" and conf = "[(''cpus'', PInt 2)]"
            and ?c1.0 = "example_call 1" and ?c2.0 = "example_call 2" and ?c3.0 = "example_call 3"
            and ?c4.0 = "example_call 4" and ?c5.0 = "example_call 5"]
    by (simp add: example_session_def)
qed

section \<open>Leaving the scope without an exception\<close>

lemma call_locally_ok:
  "fst (call_locally env c w) = Inr () \<Longrightarrow> call_locally env c w = (Inr (), w @ [Call c])"
  by (auto simp: call_locally_def split: if_splits option.splits)

lemma call_locally_trace:
  "snd (call_locally env c w) = w \<or> snd (call_locally env c w) = w @ [Call c]"
  by (auto simp: call_locally_def split: option.splits)

lemma run_calls_all:
  "\<forall>i < length cs. fst (call_locally env (cs ! i) (w @ map Call (take i cs))) = Inr ()
   \<Longrightarrow> run_calls env cs w = (Inr (), w @ map Call cs)"
proof (induction cs arbitrary: w)
  case Nil
  show ?case by simp
next
  case (Cons c cs)
  from Cons.prems have "fst (call_locally env c w) = Inr ()" by fastforce
  then have first: "call_locally env c w = (Inr (), w @ [Call c])" by (rule call_locally_ok)
  have "\<forall>i < length cs. fst (call_locally env (cs ! i) ((w @ [Call c]) @ map Call (take i cs))) = Inr ()"
  proof (intro allI impI)
    fix i
    assume "i < length cs"
    then have "Suc i < length (c # cs)" by simp
    with Cons.prems
    have "fst (call_locally env ((c # cs) ! Suc i) (w @ map Call (take (Suc i) (c # cs)))) = Inr ()"
      by blast
    then show "fst (call_locally env (cs ! i) ((w @ [Call c]) @ map Call (take i cs))) = Inr ()"
      by simp
  qed
  from Cons.IH[OF this] first show ?case by simp
qed

lemma run_calls_first_failure:
  "n < length cs \<Longrightarrow>
   \<forall>i < n. fst (call_locally env (cs ! i) (w @ map Call (take i cs))) = Inr () \<Longrightarrow>
   call_locally env (cs ! n) (w @ map Call (take n cs)) = (Inl e, w') \<Longrightarrow>
   run_calls env cs w = (Inl e, w')"
proof (induction cs arbitrary: w n)
  case Nil
  then show ?case by simp
next
  case (Cons c cs)
  show ?case
  proof (cases n)
    case 0
    with Cons.prems(3) show ?thesis by simp
  next
    case (Suc m)
    with Cons.prems(2) have "fst (call_locally env c w) = Inr ()" by fastforce
    then have first: "call_locally env c w = (Inr (), w @ [Call c])" by (rule call_locally_ok)
    have m: "m < length cs" using Cons.prems(1) Suc by simp
    have ok: "\<forall>i < m. fst (call_locally env (cs ! i) ((w @ [Call c]) @ map Call (take i cs))) = Inr ()"
    proof (intro allI impI)
      fix i
      assume "i < m"
      then have "Suc i < n" using Suc by simp
      with Cons.prems(2)
      have "fst (call_locally env ((c # cs) ! Suc i) (w @ map Call (take (Suc i) (c # cs)))) = Inr ()"
        by blast
      then show "fst (call_locally env (cs ! i) ((w @ [Call c]) @ map Call (take i cs))) = Inr ()"
        by simp
    qed
    have fail: "call_locally env (cs ! m) ((w @ [Call c]) @ map Call (take m cs)) = (Inl e, w')"
      using Cons.prems(3) Suc by simp
    from Cons.IH[OF m ok fail] first show ?thesis by simp
  qed
qed

lemma run_calls_append:
  "run_calls env (xs @ ys) w =
     (case run_calls env xs w of
        (Inl e, w') \<Rightarrow> (Inl e, w')
      | (Inr u, w') \<Rightarrow> run_calls env ys w')"
  by (induction xs arbitrary: w) (auto split: prod.splits sum.splits)

lemma run_groups_concat: "run_groups env gs w = run_calls env (concat (map snd gs)) w"
  by (induction gs arbitrary: w) (auto simp: run_calls_append split: prod.splits sum.splits)

lemma chunk_loop_trace:
  assumes "chunk_loop env B conf calls job_ids w = Some y"
  shows "\<exists>evs. snd y = w @ evs \<and> (\<forall>e \<in> set evs. \<exists>cs d. e = DispatchBatch cs d)"
proof (rule chunk_loop.raw_induct[where P = "\<lambda>env B conf calls job_ids w y.
          \<exists>evs. snd y = w @ evs \<and> (\<forall>e \<in> set evs. \<exists>cs d. e = DispatchBatch cs d)", OF _ assms])
  fix loop :: "collaborators \<Rightarrow> int \<Rightarrow> pydict \<Rightarrow> FunctionCall list \<Rightarrow> int list
                 \<Rightarrow> event list \<Rightarrow> (int list \<times> event list) option"
  fix env B conf calls job_ids w y
  assume IH: "\<And>env B conf calls job_ids w y. loop env B conf calls job_ids w = Some y \<Longrightarrow>
          \<exists>evs. snd y = w @ evs \<and> (\<forall>e \<in> set evs. \<exists>cs d. e = DispatchBatch cs d)"
  assume body: "(if calls = [] then Some (job_ids, w)
      else loop env B conf (slice_from calls B)
             (job_ids @ [batch_job_id env w (slice_to calls B) conf])
             (w @ [DispatchBatch (slice_to calls B) conf])) = Some y"
  show "\<exists>evs. snd y = w @ evs \<and> (\<forall>e \<in> set evs. \<exists>cs d. e = DispatchBatch cs d)"
  proof (cases "calls = []")
    case True
    with body show ?thesis by auto
  next
    case False
    with body have "loop env B conf (slice_from calls B)
             (job_ids @ [batch_job_id env w (slice_to calls B) conf])
             (w @ [DispatchBatch (slice_to calls B) conf]) = Some y" by simp
    from IH[OF this] obtain evs where
      "snd y = (w @ [DispatchBatch (slice_to calls B) conf]) @ evs"
      and "\<forall>e \<in> set evs. \<exists>cs d. e = DispatchBatch cs d" by blast
    then show ?thesis
      by (intro exI[of _ "DispatchBatch (slice_to calls B) conf # evs"]) simp
  qed
qed

lemma chunk_groups_trace:
  "chunk_groups env B gs job_ids w = Some y \<Longrightarrow>
   \<exists>evs. snd y = w @ evs \<and> (\<forall>e \<in> set evs. \<exists>cs d. e = DispatchBatch cs d)"
proof (induction gs arbitrary: job_ids w)
  case Nil
  then show ?case by auto
next
  case (Cons g gs)
  obtain conf calls where g: "g = (conf, calls)" by (cases g)
  from Cons.prems g obtain js1 w1 where
    first: "chunk_loop env B conf calls job_ids w = Some (js1, w1)"
    and rest: "chunk_groups env B gs js1 w1 = Some y"
    by (auto split: option.splits)
  from chunk_loop_trace[OF first] obtain evs1 where
    "w1 = w @ evs1" "\<forall>e \<in> set evs1. \<exists>cs d. e = DispatchBatch cs d" by auto
  moreover from Cons.IH[OF rest] obtain evs2 where
    "snd y = w1 @ evs2" "\<forall>e \<in> set evs2. \<exists>cs d. e = DispatchBatch cs d" by auto
  ultimately show ?case
    by (intro exI[of _ "evs1 @ evs2"]) auto
qed

lemma distribute_trace:
  assumes "distribute env self w = Some (r, self1, w1)"
  shows "\<exists>evs. w1 = w @ evs \<and> (\<forall>c. Call c \<notin> set evs) \<and> (\<forall>s. Print s \<notin> set evs)"
proof -
  from assms obtain js wb where
    batches: "(case max_batch_size self of
              None \<Rightarrow> Some (dispatch_groups env (tasks self) [] w)
            | Some B \<Rightarrow> chunk_groups env B (tasks self) [] w) = Some (js, wb)"
    by (auto simp: distribute_def split: option.splits)
  have "\<exists>evs. wb = w @ evs \<and> (\<forall>e \<in> set evs. \<exists>cs d. e = DispatchBatch cs d)"
  proof (cases "max_batch_size self")
    case None
    with batches dispatch_groups_eq[of env "tasks self" "[]" w] show ?thesis by auto
  next
    case (Some B)
    with batches chunk_groups_trace[of env B "tasks self" "[]" w "(js, wb)"] show ?thesis by auto
  qed
  then obtain evs where wb: "wb = w @ evs"
    and evs: "\<forall>e \<in> set evs. \<exists>cs d. e = DispatchBatch cs d" by blast
  from distribute_after_batches[OF batches] assms obtain w2 where
    w1: "w1 = wb @ w2" and w2: "\<forall>e \<in> set w2. \<exists>c d. e = Dispatch c d" by auto
  show ?thesis
    using wb w1 evs w2 by (intro exI[of _ "evs @ w2"]) auto
qed

text \<open>
  C8, as the code has it: when the body raised nothing, \<^verbatim>\<open>__exit__\<close> takes one of two
  paths. Without \<^verbatim>\<open>sbatch\<close> it prints a line and runs the calls of the groups in-process,
  group after group and in arrival order within a group, and nothing is dispatched, so
  that there is no job id. When no call raises, every call is run once and \<^verbatim>\<open>_tasks\<close> is
  emptied. When a call raises, the calls before it have been run once each, the
  exception leaves \<^verbatim>\<open>__exit__\<close>, the calls after it are not run and \<^verbatim>\<open>_tasks\<close> stays as it
  is. With \<^verbatim>\<open>sbatch\<close> it does what \<^verbatim>\<open>distribute\<close> does, and no call is run in-process.
\<close>

theorem exit_selects_path:
  assumes "cs = concat (map snd (tasks self))"
    and "w0 = w @ [Print ''No Slurm environment available. Running batch locally.'']"
  shows
  "(\<not> which_sbatch env
      \<and> (\<forall>i < length cs. fst (call_locally env (cs ! i) (w0 @ map Call (take i cs))) = Inr ())
    \<longrightarrow> AutoBatch_exit env self None w
          = Some (Inr False, self\<lparr>tasks := []\<rparr>, w0 @ map Call cs))
   \<and> (\<not> which_sbatch env \<and> n < length cs
      \<and> (\<forall>i < n. fst (call_locally env (cs ! i) (w0 @ map Call (take i cs))) = Inr ())
      \<and> call_locally env (cs ! n) (w0 @ map Call (take n cs)) = (Inl e, w')
    \<longrightarrow> AutoBatch_exit env self None w = Some (Inl e, self, w')
        \<and> (w' = w0 @ map Call (take n cs) \<or> w' = w0 @ map Call (take (Suc n) cs)))
   \<and> (which_sbatch env \<longrightarrow>
      AutoBatch_exit env self None w
        = (case distribute env self w of
             None \<Rightarrow> None
           | Some (Inl e, self1, w1) \<Rightarrow> Some (Inl e, self1, w1)
           | Some (Inr job_ids, self1, w1) \<Rightarrow> Some (Inr False, self1, w1))
      \<and> (\<forall>r self1 w1. AutoBatch_exit env self None w = Some (r, self1, w1) \<longrightarrow>
            (\<exists>evs. w1 = w @ evs \<and> (\<forall>c. Call c \<notin> set evs))))"
proof (intro conjI impI allI)
  assume A: "\<not> which_sbatch env
      \<and> (\<forall>i < length cs. fst (call_locally env (cs ! i) (w0 @ map Call (take i cs))) = Inr ())"
  then have "run_calls env cs w0 = (Inr (), w0 @ map Call cs)" by (simp add: run_calls_all)
  then have "run_groups env (tasks self) w0 = (Inr (), w0 @ map Call cs)"
    using assms(1) by (simp add: run_groups_concat)
  with A show "AutoBatch_exit env self None w
          = Some (Inr False, self\<lparr>tasks := []\<rparr>, w0 @ map Call cs)"
    using assms(2) by (simp add: AutoBatch_exit_def run_locally_def)
next
  assume A: "\<not> which_sbatch env \<and> n < length cs
      \<and> (\<forall>i < n. fst (call_locally env (cs ! i) (w0 @ map Call (take i cs))) = Inr ())
      \<and> call_locally env (cs ! n) (w0 @ map Call (take n cs)) = (Inl e, w')"
  then have "run_calls env cs w0 = (Inl e, w')"
    using run_calls_first_failure[of n cs env w0 e w'] by blast
  then have "run_groups env (tasks self) w0 = (Inl e, w')"
    using assms(1) by (simp add: run_groups_concat)
  with A show "AutoBatch_exit env self None w = Some (Inl e, self, w')"
    using assms(2) by (simp add: AutoBatch_exit_def run_locally_def)
next
  assume A: "\<not> which_sbatch env \<and> n < length cs
      \<and> (\<forall>i < n. fst (call_locally env (cs ! i) (w0 @ map Call (take i cs))) = Inr ())
      \<and> call_locally env (cs ! n) (w0 @ map Call (take n cs)) = (Inl e, w')"
  then have n: "n < length cs" and w': "w' = snd (call_locally env (cs ! n) (w0 @ map Call (take n cs)))"
    by simp_all
  from call_locally_trace[of env "cs ! n" "w0 @ map Call (take n cs)"] w'
  have "w' = w0 @ map Call (take n cs) \<or> w' = (w0 @ map Call (take n cs)) @ [Call (cs ! n)]"
    by simp
  then show "w' = w0 @ map Call (take n cs) \<or> w' = w0 @ map Call (take (Suc n) cs)"
    using n by (simp add: take_Suc_conv_app_nth)
next
  assume "which_sbatch env"
  then show "AutoBatch_exit env self None w
        = (case distribute env self w of
             None \<Rightarrow> None
           | Some (Inl e, self1, w1) \<Rightarrow> Some (Inl e, self1, w1)
           | Some (Inr job_ids, self1, w1) \<Rightarrow> Some (Inr False, self1, w1))"
    by (simp add: AutoBatch_exit_def)
next
  fix r self1 w1
  assume reach: "which_sbatch env" and ex: "AutoBatch_exit env self None w = Some (r, self1, w1)"
  then obtain r' where "distribute env self w = Some (r', self1, w1)"
    by (auto simp: AutoBatch_exit_def split: option.splits sum.splits)
  from distribute_trace[OF this] show "\<exists>evs. w1 = w @ evs \<and> (\<forall>c. Call c \<notin> set evs)" by blast
qed

theorem exit_selects_path_witness:
  "AutoBatch_exit (example_env\<lparr>which_sbatch := False\<rparr>) example_session None []
     = Some (Inr False, example_session\<lparr>tasks := []\<rparr>,
             [Print ''No Slurm environment available. Running batch locally.'',
              Call (example_call 1), Call (example_call 2), Call (example_call 3),
              Call (example_call 4), Call (example_call 5)])
   \<and> AutoBatch_exit failing_env example_session None []
     = Some (Inl (TargetException ''fail''), example_session,
             [Print ''No Slurm environment available. Running batch locally.'',
              Call (example_call 1), Call (example_call 2)])
   \<and> AutoBatch_exit example_env example_session None []
       = Some (Inr False, example_session\<lparr>tasks := []\<rparr>,
               [DispatchBatch [example_call 1, example_call 2] [(''cpus'', PInt 2)],
                DispatchBatch [example_call 3, example_call 4] [(''cpus'', PInt 2)],
                DispatchBatch [example_call 5] [(''cpus'', PInt 2)],
                Dispatch \<lparr>func_id = ''g'', args = [], kwargs = []\<rparr>
                  [(''dependency'', PStr ''afterok:5,afterany:10:11:12'')]])"
proof (intro conjI)
  let ?cs = "[example_call 1, example_call 2, example_call 3, example_call 4, example_call 5]"
  let ?w0 = "[Print ''No Slurm environment available. Running batch locally.'']"
  have cs: "?cs = concat (map snd (tasks example_session))"
    by (simp add: example_session_def)
  have w0: "?w0 = [] @ [Print ''No Slurm environment available. Running batch locally.'']"
    by simp
  have all_ok: "\<forall>i < length ?cs.
      fst (call_locally (example_env\<lparr>which_sbatch := False\<rparr>) (?cs ! i)
             (?w0 @ map Call (take i ?cs))) = Inr ()"
    by (auto simp: call_locally_def example_env_def example_call_def less_Suc_eq)
  show "AutoBatch_exit (example_env\<lparr>which_sbatch := False\<rparr>) example_session None []
     = Some (Inr False, example_session\<lparr>tasks := []\<rparr>,
             [Print ''No Slurm environment available. Running batch locally.'',
              Call (example_call 1), Call (example_call 2), Call (example_call 3),
              Call (example_call 4), Call (example_call 5)])"
    using exit_selects_path [OF cs w0, where env = "example_env\<lparr>which_sbatch := False\<rparr>"] all_ok
    by (simp add: example_env_def)
  have before: "\<forall>i < 1.
      fst (call_locally failing_env (?cs ! i) (?w0 @ map Call (take i ?cs))) = Inr ()"
    by (auto simp: call_locally_def failing_env_def example_env_def example_call_def)
  have fails: "call_locally failing_env (?cs ! 1) (?w0 @ map Call (take 1 ?cs))
      = (Inl (TargetException ''fail''), ?w0 @ [Call (example_call 1), Call (example_call 2)])"
    by (simp add: call_locally_def failing_env_def example_env_def example_call_def)
  show "AutoBatch_exit failing_env example_session None []
     = Some (Inl (TargetException ''fail''), example_session,
             [Print ''No Slurm environment available. Running batch locally.'',
              Call (example_call 1), Call (example_call 2)])"
    using exit_selects_path [OF cs w0, where env = failing_env and n = 1
            and e = "TargetException ''fail''"
            and w' = "?w0 @ [Call (example_call 1), Call (example_call 2)]"] before fails
    by (simp add: failing_env_def example_env_def)
  have run: "distribute example_env example_session []
      = Some (Inr [10, 11, 12], example_session\<lparr>tasks := []\<rparr>,
               [DispatchBatch [example_call 1, example_call 2] [(''cpus'', PInt 2)],
                DispatchBatch [example_call 3, example_call 4] [(''cpus'', PInt 2)],
                DispatchBatch [example_call 5] [(''cpus'', PInt 2)],
                Dispatch \<lparr>func_id = ''g'', args = [], kwargs = []\<rparr>
                  [(''dependency'', PStr ''afterok:5,afterany:10:11:12'')]])"
    by (simp add: distribute_def example_session_def example_env_def chunk_loop.simps
          slice_to_def slice_from_def add_on_completion_tasks_def completion_dependency_def
          str_int_def str_nat.simps)
  show "AutoBatch_exit example_env example_session None []
       = Some (Inr False, example_session\<lparr>tasks := []\<rparr>,
               [DispatchBatch [example_call 1, example_call 2] [(''cpus'', PInt 2)],
                DispatchBatch [example_call 3, example_call 4] [(''cpus'', PInt 2)],
                DispatchBatch [example_call 5] [(''cpus'', PInt 2)],
                Dispatch \<lparr>func_id = ''g'', args = [], kwargs = []\<rparr>
                  [(''dependency'', PStr ''afterok:5,afterany:10:11:12'')]])"
    using exit_selects_path [OF cs w0, where env = example_env] run
    by (simp add: example_env_def)
qed

text \<open>
  C8 as stated has every call of the groups run when \<^verbatim>\<open>sbatch\<close> is missing. Where the
  function of the second call raises, the third, fourth and fifth call are not run and
  the exception leaves \<^verbatim>\<open>__exit__\<close>; and the call recorded by \<^verbatim>\<open>add(f, func_id=3)\<close> is not
  run at all.
\<close>

theorem local_run_stops_at_exception:
  "AutoBatch_exit failing_env example_session None []
     = Some (Inl (TargetException ''fail''), example_session,
             [Print ''No Slurm environment available. Running batch locally.'',
              Call (example_call 1), Call (example_call 2)])
   \<and> add example_env (AutoBatch_init None) (SlurmFunction ''f'' []) [] [(''func_id'', PInt 3)]
     = Inr func_id_session
   \<and> AutoBatch_exit (example_env\<lparr>which_sbatch := False\<rparr>) func_id_session None []
     = Some (Inl TypeError, func_id_session,
             [Print ''No Slurm environment available. Running batch locally.''])"
  by (simp add: AutoBatch_exit_def run_locally_def call_locally_def failing_env_def
        example_env_def example_session_def example_call_def func_id_session_def add_def
        binds_def HashableDict_hash_def AutoBatch_init_def)

section \<open>The dependency of a job registered with \<^verbatim>\<open>on_completion\<close>\<close>

lemma completion_loop_tasks:
  "map (\<lambda>(sfunc, as, kw). completion_task sfunc as kw job_ids) entries = map Inr evs
   \<Longrightarrow> completion_loop entries job_ids w = (Inr (), w @ evs)"
proof (induction entries arbitrary: evs w)
  case Nil
  then show ?case by simp
next
  case (Cons entry entries)
  obtain sfunc as kw where entry: "entry = (sfunc, as, kw)" by (cases entry)
  from Cons.prems entry obtain ev evs' where evs: "evs = ev # evs'"
    and ev: "completion_task sfunc as kw job_ids = Inr ev"
    and rest: "map (\<lambda>(sfunc, as, kw). completion_task sfunc as kw job_ids) entries = map Inr evs'"
    by (cases evs) auto
  from Cons.IH[OF rest, of "w @ [ev]"] ev evs entry show ?case by simp
qed

text \<open>
  C7: for an entry whose options hold a non-empty dependency string, the dependency that
  is submitted is that string, a comma, and \<^verbatim>\<open>afterany:\<close> followed by the job ids joined
  with colons; for an entry without a dependency (or with the empty string) it is the
  \<^verbatim>\<open>afterany\<close> clause alone. The dependency \<^verbatim>\<open>afterok:5\<close> with the job ids 10 and 11
  gives \<^verbatim>\<open>afterok:5,afterany:10:11\<close>. Each entry is submitted as a single job whose
  configuration holds this dependency only, in the order of registration.
\<close>

theorem completion_dependency_composed:
  "(map_of opts ''dependency'' = Some (PStr d) \<and> d \<noteq> [] \<longrightarrow>
      completion_dependency opts job_ids
        = Inr (PStr (d @ '','' @ ''afterany:'' @ join '':'' (map str_int job_ids))))
   \<and> (map_of opts ''dependency'' = None \<or> map_of opts ''dependency'' = Some (PStr []) \<longrightarrow>
      completion_dependency opts job_ids
        = Inr (PStr (''afterany:'' @ join '':'' (map str_int job_ids))))
   \<and> completion_dependency [(''dependency'', PStr ''afterok:5'')] [10, 11]
        = Inr (PStr ''afterok:5,afterany:10:11'')
   \<and> completion_task (SlurmFunction fid opts) as kw job_ids
        = (case completion_dependency opts job_ids of
             Inl e \<Rightarrow> Inl e
           | Inr dep \<Rightarrow> Inr (Dispatch \<lparr>func_id = fid, args = as, kwargs = kw\<rparr>
                               [(''dependency'', dep)]))
   \<and> (map (\<lambda>(sfunc, as, kw). completion_task sfunc as kw job_ids) (on_completion_list self)
        = map Inr evs \<longrightarrow>
      add_on_completion_tasks self job_ids w = (Inr (), w @ evs))"
proof (intro conjI impI)
  assume "map_of opts ''dependency'' = Some (PStr d) \<and> d \<noteq> []"
  then show "completion_dependency opts job_ids
        = Inr (PStr (d @ '','' @ ''afterany:'' @ join '':'' (map str_int job_ids)))"
    by (simp add: completion_dependency_def)
next
  assume "map_of opts ''dependency'' = None \<or> map_of opts ''dependency'' = Some (PStr [])"
  then show "completion_dependency opts job_ids
        = Inr (PStr (''afterany:'' @ join '':'' (map str_int job_ids)))"
    by (auto simp: completion_dependency_def)
next
  show "completion_dependency [(''dependency'', PStr ''afterok:5'')] [10, 11]
        = Inr (PStr ''afterok:5,afterany:10:11'')"
    by (simp add: completion_dependency_def str_int_def str_nat.simps)
next
  show "completion_task (SlurmFunction fid opts) as kw job_ids
        = (case completion_dependency opts job_ids of
             Inl e \<Rightarrow> Inl e
           | Inr dep \<Rightarrow> Inr (Dispatch \<lparr>func_id = fid, args = as, kwargs = kw\<rparr>
                               [(''dependency'', dep)]))"
    by simp
next
  assume "map (\<lambda>(sfunc, as, kw). completion_task sfunc as kw job_ids) (on_completion_list self)
        = map Inr evs"
  then show "add_on_completion_tasks self job_ids w = (Inr (), w @ evs)"
    unfolding add_on_completion_tasks_def by (rule completion_loop_tasks)
qed

theorem completion_dependency_composed_witness:
  "completion_dependency [(''dependency'', PStr ''afterok:5'')] [10, 11]
     = Inr (PStr (''afterok:5'' @ '','' @ ''afterany:'' @ join '':'' (map str_int [10, 11])))
   \<and> completion_dependency [(''cpus'', PInt 2)] [10, 11]
     = Inr (PStr (''afterany:'' @ join '':'' (map str_int [10, 11])))
   \<and> add_on_completion_tasks example_session [10, 11] []
     = (Inr (), [Dispatch \<lparr>func_id = ''g'', args = [], kwargs = []\<rparr>
                   [(''dependency'', PStr ''afterok:5,afterany:10:11'')]])"
  using completion_dependency_composed [where opts = "[(''dependency'', PStr ''afterok:5'')]"
          and d = "''afterok:5''" and job_ids = "[10, 11]" and self = example_session
          and w = "[]" and evs = "[Dispatch \<lparr>func_id = ''g'', args = [], kwargs = []\<rparr>
                   [(''dependency'', PStr ''afterok:5,afterany:10:11'')]]"]
        completion_dependency_composed [where opts = "[(''cpus'', PInt 2)]"
          and job_ids = "[10, 11]" and self = example_session and evs = "[]"]
  by (simp add: example_session_def)

section \<open>Errors of \<^verbatim>\<open>add\<close>\<close>




text \<open>
  C9: when the configuration of the function (what \<^verbatim>\<open>_get_conf\<close> returns for its options)
  holds a value that cannot be hashed, hashing the \<^verbatim>\<open>HashableDict\<close> raises, and so does
  \<^verbatim>\<open>add\<close>, where the configuration is used as the key of the group; nothing is stored.
  The exception is Python's \<^verbatim>\<open>TypeError\<close> for an unhashable value.
\<close>

theorem add_unhashable_value:
  assumes "(k, v) \<in> set (get_conf env opts)" and "\<not> hashable v"
  shows "HashableDict_hash env (get_conf env opts) = Inl TypeError
       \<and> add env self (SlurmFunction fid opts) as kw = Inl TypeError"
proof -
  from assms have "\<not> list_all (\<lambda>(k, v). hashable v) (get_conf env opts)"
    by (auto simp: list_all_iff)
  then have "HashableDict_hash env (get_conf env opts) = Inl TypeError"
    by (simp add: HashableDict_hash_def)
  then show ?thesis by (simp add: add_def)
qed

theorem add_unhashable_value_witness:
  "(''mem'', PList [PInt 1]) \<in> set (get_conf example_env [(''cpus'', PInt 2), (''mem'', PList [PInt 1])])
   \<and> \<not> hashable (PList [PInt 1])
   \<and> add example_env example_session
        (SlurmFunction ''f'' [(''cpus'', PInt 2), (''mem'', PList [PInt 1])]) [] []
      = Inl TypeError"
  using add_unhashable_value [where env = example_env and k = "''mem''" and v = "PList [PInt 1]"
          and opts = "[(''cpus'', PInt 2), (''mem'', PList [PInt 1])]" and self = example_session
          and fid = "''f''" and as = "[]" and kw = "[]"]
  by (simp add: example_env_def)

section \<open>Leaving the scope after an exception\<close>

text \<open>
  C4, as the code has it: when the body raised an exception, \<^verbatim>\<open>__exit__\<close> prints
  \<^verbatim>\<open>Aborted due to exception.\<close> and returns \<^verbatim>\<open>None\<close>: nothing is dispatched, nothing is run
  in-process, the session is unchanged, and, the returned value being false, the
  exception of the body is raised again at the end of the \<^verbatim>\<open>with\<close> block.
\<close>

theorem exit_after_body_exception:
  "AutoBatch_exit env self (Some e) w
     = Some (Inr False, self, w @ [Print ''Aborted due to exception.''])
   \<and> with_exit env self (Some e) w
     = Some (Inl e, self, w @ [Print ''Aborted due to exception.''])"
  by (simp add: AutoBatch_exit_def with_exit_def)

text \<open>
  C4 as stated has the exception swallowed at the end of the scope; the block whose body
  raised \<^verbatim>\<open>boom\<close> ends with that exception.
\<close>

theorem body_exception_raised_again:
  "with_exit example_env example_session (Some (BodyException ''boom'')) []
     = Some (Inl (BodyException ''boom''), example_session, [Print ''Aborted due to exception.''])
   \<and> with_exit example_env example_session (Some (BodyException ''boom'')) []
     \<noteq> Some (Inr (), example_session, [Print ''Aborted due to exception.''])"
  by (simp add: AutoBatch_exit_def with_exit_def)

section \<open>What is left after a terminal action\<close>

text \<open>
  C3 at a session with one function registered with \<^verbatim>\<open>on_completion\<close> and no \<^verbatim>\<open>sbatch\<close>:
  \<^verbatim>\<open>run_locally\<close> runs the five calls of the group and nothing else; the registered
  function \<^verbatim>\<open>g\<close> is not run, and its entry stays in \<^verbatim>\<open>_on_completion\<close>.
\<close>

theorem run_locally_ignores_on_completion:
  "run_locally example_env example_session []
     = (Inr (), example_session\<lparr>tasks := []\<rparr>,
        [Call (example_call 1), Call (example_call 2), Call (example_call 3),
         Call (example_call 4), Call (example_call 5)])
   \<and> on_completion_list (fst (snd (run_locally example_env example_session [])))
     = [(SlurmFunction ''g'' [(''dependency'', PStr ''afterok:5'')], [], [])]
   \<and> Call \<lparr>func_id = ''g'', args = [], kwargs = []\<rparr>
       \<notin> set (snd (snd (run_locally example_env example_session [])))
   \<and> AutoBatch_exit (example_env\<lparr>which_sbatch := False\<rparr>) example_session None []
     = Some (Inr False, example_session\<lparr>tasks := []\<rparr>,
             [Print ''No Slurm environment available. Running batch locally.'',
              Call (example_call 1), Call (example_call 2), Call (example_call 3),
              Call (example_call 4), Call (example_call 5)])"
  by (simp add: AutoBatch_exit_def run_locally_def call_locally_def example_session_def
        example_call_def example_env_def)

text \<open>
  C2 at the same session with \<^verbatim>\<open>sbatch\<close>: the first \<^verbatim>\<open>distribute\<close> submits three batch jobs
  and the registered function; it empties \<^verbatim>\<open>_tasks\<close> and leaves \<^verbatim>\<open>_on_completion\<close> as it
  was. A second \<^verbatim>\<open>distribute\<close> returns no job id and submits the registered function
  again, with a dependency on no job.
\<close>

theorem second_distribute_submits_again:
  "distribute example_env example_session []
     = Some (Inr [10, 11, 12], example_session\<lparr>tasks := []\<rparr>,
             [DispatchBatch [example_call 1, example_call 2] [(''cpus'', PInt 2)],
              DispatchBatch [example_call 3, example_call 4] [(''cpus'', PInt 2)],
              DispatchBatch [example_call 5] [(''cpus'', PInt 2)],
              Dispatch \<lparr>func_id = ''g'', args = [], kwargs = []\<rparr>
                [(''dependency'', PStr ''afterok:5,afterany:10:11:12'')]])
   \<and> on_completion_list (example_session\<lparr>tasks := []\<rparr>) \<noteq> []
   \<and> distribute example_env (example_session\<lparr>tasks := []\<rparr>) []
     = Some (Inr [], example_session\<lparr>tasks := []\<rparr>,
             [Dispatch \<lparr>func_id = ''g'', args = [], kwargs = []\<rparr>
                [(''dependency'', PStr ''afterok:5,afterany:'')]])"
  by (simp add: distribute_def example_session_def example_env_def chunk_loop.simps
        slice_to_def slice_from_def add_on_completion_tasks_def completion_dependency_def
        str_int_def str_nat.simps)

section \<open>Equality and hash of \<^verbatim>\<open>HashableDict\<close>, and the groups of \<^verbatim>\<open>add\<close>\<close>

lemma is_dict_distinct: "is_dict d \<Longrightarrow> distinct d"
  by (simp add: is_dict_def distinct_map)

lemma dict_eq_iff_set:
  assumes "is_dict a" and "is_dict b"
  shows "dict_eq a b \<longleftrightarrow> set a = set b"
proof
  assume eq: "dict_eq a b"
  then have len: "length a = length b"
    and found: "\<forall>(k, v) \<in> set a. map_of b k = Some v"
    by (simp_all add: dict_eq_def list_all_iff)
  from found have sub: "set a \<subseteq> set b" by (auto dest: map_of_SomeD)
  have "card (set a) = card (set b)"
    using len assms by (simp add: distinct_card is_dict_distinct)
  with sub show "set a = set b" by (simp add: card_subset_eq)
next
  assume eq: "set a = set b"
  have "length a = card (set a)" using assms by (simp add: distinct_card is_dict_distinct)
  also have "\<dots> = card (set b)" using eq by simp
  also have "\<dots> = length b" using assms by (simp add: distinct_card is_dict_distinct)
  finally have len: "length a = length b" .
  have "\<forall>(k, v) \<in> set a. map_of b k = Some v"
    using eq assms(2) by (auto simp: is_dict_def)
  with len show "dict_eq a b" by (simp add: dict_eq_def list_all_iff)
qed

lemma dict_eq_iff_map_of:
  "is_dict a \<Longrightarrow> is_dict b \<Longrightarrow> dict_eq a b \<longleftrightarrow> map_of a = map_of b"
  by (simp add: dict_eq_iff_set is_dict_def map_of_inject_set)

lemma hash_order_independent:
  assumes "mset a = mset b"
  shows "HashableDict_hash env a = HashableDict_hash env b"
proof -
  from assms have "set a = set b" by (rule mset_eq_setD)
  then have hashable: "list_all (\<lambda>(k, v). hashable v) a = list_all (\<lambda>(k, v). hashable v) b"
    by (simp add: list_all_iff)
  from assms have "mset (map (hash_pair env) a) = mset (map (hash_pair env) b)" by simp
  then have "sort (map (hash_pair env) a) = sort (map (hash_pair env) b)"
    by (metis mset_sort properties_for_sort sorted_sort)
  with hashable show ?thesis by (simp add: HashableDict_hash_def)
qed

lemma dict_eq_hash:
  assumes "is_dict a" and "is_dict b" and "dict_eq a b"
  shows "HashableDict_hash env a = HashableDict_hash env b"
proof -
  from assms have "set a = set b" by (simp add: dict_eq_iff_set)
  with assms(1,2) have "mset a = mset b"
    by (simp add: set_eq_iff_mset_eq_distinct is_dict_distinct)
  then show ?thesis by (rule hash_order_independent)
qed

lemma key_match_iff:
  "is_dict a \<Longrightarrow> is_dict b \<Longrightarrow> key_match env a b \<longleftrightarrow> map_of a = map_of b"
  using dict_eq_hash[of a b env] by (auto simp: key_match_def dict_eq_iff_map_of)

lemma group_of_tasks_append:
  assumes "\<forall>(k, cs) \<in> set gs. is_dict k" and "is_dict c" and "is_dict key"
  shows "group_of env (tasks_append env gs c x) key
         = (if map_of c = map_of key then group_of env gs key @ [x] else group_of env gs key)"
  using assms
proof (induction gs)
  case Nil
  then show ?case by (simp add: key_match_iff)
next
  case (Cons g gs)
  obtain k cs where g: "g = (k, cs)" by (cases g)
  with Cons.prems have k: "is_dict k" by simp
  from Cons have IH: "group_of env (tasks_append env gs c x) key
         = (if map_of c = map_of key then group_of env gs key @ [x] else group_of env gs key)"
    by simp
  show ?case
    using g k Cons.prems(2,3) IH by (auto simp: key_match_iff)
qed

lemma map_fst_tasks_append:
  "map fst (tasks_append env gs c x)
   = (if \<exists>k \<in> set (map fst gs). key_match env k c then map fst gs else map fst gs @ [c])"
  by (induction gs) force+

lemma keys_tasks_append:
  "fst ` set (tasks_append env gs c x) \<subseteq> insert c (fst ` set gs)
   \<and> fst ` set gs \<subseteq> fst ` set (tasks_append env gs c x)"
proof -
  have "set (map fst (tasks_append env gs c x)) \<subseteq> insert c (set (map fst gs))
      \<and> set (map fst gs) \<subseteq> set (map fst (tasks_append env gs c x))"
    unfolding map_fst_tasks_append by auto
  then show ?thesis by simp
qed

lemma tasks_append_has_key:
  assumes "\<forall>(k, cs) \<in> set gs. is_dict k" and "is_dict c"
  shows "\<exists>k \<in> fst ` set (tasks_append env gs c x). map_of k = map_of c"
  using assms
proof (induction gs)
  case Nil
  then show ?case by simp
next
  case (Cons g gs)
  obtain k cs where g: "g = (k, cs)" by (cases g)
  with Cons.prems have k: "is_dict k" by simp
  from Cons have IH: "\<exists>k \<in> fst ` set (tasks_append env gs c x). map_of k = map_of c" by simp
  show ?case
    using g k Cons.prems(2) IH by (auto simp: key_match_iff)
qed

lemma distinct_tasks_append:
  assumes "\<forall>(k, cs) \<in> set gs. is_dict k" and "is_dict c"
    and "distinct (map (\<lambda>(k, cs). map_of k) gs)"
  shows "distinct (map (\<lambda>(k, cs). map_of k) (tasks_append env gs c x))"
  using assms
proof (induction gs)
  case Nil
  then show ?case by simp
next
  case (Cons g gs)
  obtain k cs where g: "g = (k, cs)" by (cases g)
  with Cons.prems have k: "is_dict k" by simp
  from Cons have IH: "distinct (map (\<lambda>(k, cs). map_of k) (tasks_append env gs c x))" by simp
  show ?case
  proof (cases "key_match env k c")
    case True
    then show ?thesis using g Cons.prems(3) by simp
  next
    case False
    then have neq: "map_of k \<noteq> map_of c" using k Cons.prems(2) by (simp add: key_match_iff)
    have "map_of k \<notin> (\<lambda>(k, cs). map_of k) ` set (tasks_append env gs c x)"
    proof
      assume "map_of k \<in> (\<lambda>(k, cs). map_of k) ` set (tasks_append env gs c x)"
      then obtain k' cs' where in': "(k', cs') \<in> set (tasks_append env gs c x)"
        and same: "map_of k' = map_of k" by auto
      from in' have "k' \<in> fst ` set (tasks_append env gs c x)" by force
      with keys_tasks_append[of env gs c x] have "k' = c \<or> k' \<in> fst ` set gs" by auto
      then show False
      proof
        assume "k' = c"
        with same neq show False by simp
      next
        assume "k' \<in> fst ` set gs"
        then have "map_of k' \<in> (\<lambda>(k, cs). map_of k) ` set gs" by force
        with same Cons.prems(3) g show False by simp
      qed
    qed
    with False g IH show ?thesis by simp
  qed
qed

lemma group_of_member:
  assumes "\<forall>(k, cs) \<in> set gs. is_dict k" and "distinct (map (\<lambda>(k, cs). map_of k) gs)"
    and "(k, cs) \<in> set gs"
  shows "group_of env gs k = cs"
  using assms
proof (induction gs)
  case Nil
  then show ?case by simp
next
  case (Cons g gs)
  obtain k' cs' where g: "g = (k', cs')" by (cases g)
  with Cons.prems have k': "is_dict k'" by simp
  from Cons.prems(1,3) have k: "is_dict k" by auto
  show ?case
  proof (cases "(k, cs) = (k', cs')")
    case True
    then show ?thesis using g k by (simp add: key_match_iff)
  next
    case False
    with Cons.prems(3) g have mem: "(k, cs) \<in> set gs" by auto
    then have "map_of k \<in> (\<lambda>(k, cs). map_of k) ` set gs" by force
    with Cons.prems(2) g have "map_of k' \<noteq> map_of k" by auto
    then have "\<not> key_match env k' k" using k k' by (simp add: key_match_iff)
    moreover from Cons mem have "group_of env gs k = cs" by simp
    ultimately show ?thesis using g by simp
  qed
qed

lemma add_tasks:
  "add env self (SlurmFunction fid opts) as kw = Inr s \<Longrightarrow>
   tasks s = tasks_append env (tasks self) (get_conf env opts)
               \<lparr>func_id = fid, args = as, kwargs = kw\<rparr>"
  by (auto simp: add_def Let_def split: sum.splits if_splits)

lemma add_all_groups:
  assumes "add_all env self xs = Inr s"
    and "\<forall>x \<in> set xs. is_dict (conf_of env x)"
    and "\<forall>(k, cs) \<in> set (tasks self). is_dict k"
    and "distinct (map (\<lambda>(k, cs). map_of k) (tasks self))"
  shows "(\<forall>(k, cs) \<in> set (tasks s). is_dict k)
       \<and> distinct (map (\<lambda>(k, cs). map_of k) (tasks s))
       \<and> (\<forall>key. is_dict key \<longrightarrow>
            group_of env (tasks s) key
            = group_of env (tasks self) key
              @ map call_of (filter (\<lambda>x. map_of (conf_of env x) = map_of key) xs))
       \<and> (\<forall>x \<in> set xs. \<exists>k \<in> fst ` set (tasks s). map_of k = map_of (conf_of env x))
       \<and> fst ` set (tasks self) \<subseteq> fst ` set (tasks s)"
  using assms
proof (induction xs arbitrary: self)
  case Nil
  then show ?case by simp
next
  case (Cons x xs)
  obtain fid opts as kw where x: "x = (fid, opts, as, kw)" by (cases x)
  let ?c = "get_conf env opts"
  let ?call = "\<lparr>func_id = fid, args = as, kwargs = kw\<rparr>"
  from Cons.prems(1) x obtain s1 where
    first: "add env self (SlurmFunction fid opts) as kw = Inr s1"
    and rest: "add_all env s1 xs = Inr s"
    by (auto split: sum.splits)
  have t1: "tasks s1 = tasks_append env (tasks self) ?c ?call"
    using first by (rule add_tasks)
  have c: "is_dict ?c" using Cons.prems(2) x by simp
  have xs: "\<forall>x \<in> set xs. is_dict (conf_of env x)" using Cons.prems(2) by simp
  have keys1: "\<forall>(k, cs) \<in> set (tasks s1). is_dict k"
  proof -
    have "\<forall>k \<in> fst ` set (tasks s1). is_dict k"
      using keys_tasks_append[of env "tasks self" ?c ?call] Cons.prems(3) c t1 by fastforce
    then show ?thesis by force
  qed
  have dist1: "distinct (map (\<lambda>(k, cs). map_of k) (tasks s1))"
    unfolding t1 using Cons.prems(3) c Cons.prems(4) by (rule distinct_tasks_append)
  from Cons.IH[OF rest xs keys1 dist1] have
    keys: "\<forall>(k, cs) \<in> set (tasks s). is_dict k"
    and dist: "distinct (map (\<lambda>(k, cs). map_of k) (tasks s))"
    and groups: "\<And>key. is_dict key \<Longrightarrow>
            group_of env (tasks s) key
            = group_of env (tasks s1) key
              @ map call_of (filter (\<lambda>x. map_of (conf_of env x) = map_of key) xs)"
    and found: "\<forall>x \<in> set xs. \<exists>k \<in> fst ` set (tasks s). map_of k = map_of (conf_of env x)"
    and sub: "fst ` set (tasks s1) \<subseteq> fst ` set (tasks s)"
    by blast+
  have groups': "group_of env (tasks s) key
            = group_of env (tasks self) key
              @ map call_of (filter (\<lambda>x. map_of (conf_of env x) = map_of key) (x # xs))"
    if key: "is_dict key" for key
    using groups[OF key] group_of_tasks_append[OF Cons.prems(3) c key, of env ?call] t1 x
    by simp
  have "\<exists>k \<in> fst ` set (tasks s1). map_of k = map_of ?c"
    unfolding t1 using Cons.prems(3) c by (rule tasks_append_has_key)
  then obtain k1 where "k1 \<in> fst ` set (tasks s1)" and "map_of k1 = map_of ?c" by blast
  with sub have "k1 \<in> fst ` set (tasks s)" and "map_of k1 = map_of (conf_of env x)"
    using x by auto
  then have found_x: "\<exists>k \<in> fst ` set (tasks s). map_of k = map_of (conf_of env x)"
    by blast
  have "fst ` set (tasks self) \<subseteq> fst ` set (tasks s1)"
    unfolding t1 using keys_tasks_append[of env "tasks self" ?c ?call] by (rule conjunct2)
  then have sub': "fst ` set (tasks self) \<subseteq> fst ` set (tasks s)"
    using sub by (rule subset_trans)
  show ?case
    using keys dist groups' found found_x sub' by simp
qed

text \<open>
  C5: two dictionaries are equal exactly when they hold the same key/value pairs, in
  whatever order; equal dictionaries have the same hash, the hash being computed from the
  sorted list of the hashes of the pairs, so that it does not depend on the order of the
  items. After any sequence of successful calls of \<^verbatim>\<open>add\<close> on a new session, each group
  holds exactly the calls whose configuration equals the key of the group, in arrival
  order; every invocation has a group with an equal key; and the keys of two different
  groups are not equal.
\<close>

theorem grouping_by_configuration:
  "(is_dict a \<and> is_dict b \<longrightarrow>
      (dict_eq a b \<longleftrightarrow> set a = set b)
    \<and> (dict_eq a b \<longrightarrow> HashableDict_hash env a = HashableDict_hash env b))
   \<and> (mset a = mset b \<longrightarrow> HashableDict_hash env a = HashableDict_hash env b)
   \<and> (list_all (\<lambda>(k, v). hashable v) a \<longrightarrow>
        HashableDict_hash env a = Inr (hash_tuple env (sort (map (hash_pair env) a))))
   \<and> ((\<forall>x \<in> set xs. is_dict (conf_of env x)) \<and> add_all env (AutoBatch_init B) xs = Inr s \<longrightarrow>
        (\<forall>(k, cs) \<in> set (tasks s).
           cs = map call_of (filter (\<lambda>x. dict_eq k (conf_of env x)) xs))
      \<and> (\<forall>x \<in> set xs. \<exists>(k, cs) \<in> set (tasks s). dict_eq k (conf_of env x))
      \<and> (\<forall>i j. i < j \<and> j < length (tasks s) \<longrightarrow>
            \<not> dict_eq (fst (tasks s ! i)) (fst (tasks s ! j))))"
proof (intro conjI impI)
  assume "is_dict a \<and> is_dict b"
  then show "dict_eq a b \<longleftrightarrow> set a = set b" by (simp add: dict_eq_iff_set)
next
  assume "is_dict a \<and> is_dict b" and "dict_eq a b"
  then show "HashableDict_hash env a = HashableDict_hash env b" by (simp add: dict_eq_hash)
next
  assume "mset a = mset b"
  then show "HashableDict_hash env a = HashableDict_hash env b" by (rule hash_order_independent)
next
  assume "list_all (\<lambda>(k, v). hashable v) a"
  then show "HashableDict_hash env a = Inr (hash_tuple env (sort (map (hash_pair env) a)))"
    by (simp add: HashableDict_hash_def)
next
  assume A: "(\<forall>x \<in> set xs. is_dict (conf_of env x)) \<and> add_all env (AutoBatch_init B) xs = Inr s"
  then have dicts: "\<forall>x \<in> set xs. is_dict (conf_of env x)"
    and run: "add_all env (AutoBatch_init B) xs = Inr s" by simp_all
  have "\<forall>(k, cs) \<in> set (tasks (AutoBatch_init B)). is_dict k"
    and "distinct (map (\<lambda>(k, cs). map_of k) (tasks (AutoBatch_init B)))"
    by (simp_all add: AutoBatch_init_def)
  from add_all_groups[OF run dicts this] have
    keys: "\<forall>(k, cs) \<in> set (tasks s). is_dict k"
    and dist: "distinct (map (\<lambda>(k, cs). map_of k) (tasks s))"
    and groups: "\<And>key. is_dict key \<Longrightarrow>
            group_of env (tasks s) key
            = map call_of (filter (\<lambda>x. map_of (conf_of env x) = map_of key) xs)"
    and found: "\<forall>x \<in> set xs. \<exists>k \<in> fst ` set (tasks s). map_of k = map_of (conf_of env x)"
    by (simp_all add: AutoBatch_init_def)
  show "\<forall>(k, cs) \<in> set (tasks s). cs = map call_of (filter (\<lambda>x. dict_eq k (conf_of env x)) xs)"
  proof (intro ballI, clarify)
    fix k cs
    assume mem: "(k, cs) \<in> set (tasks s)"
    with keys have k: "is_dict k" by auto
    have same: "filter (\<lambda>x. dict_eq k (conf_of env x)) xs
                = filter (\<lambda>x. map_of (conf_of env x) = map_of k) xs"
      using dicts k by (intro filter_cong) (auto simp: dict_eq_iff_map_of)
    from group_of_member[OF keys dist mem, of env] groups[OF k] same
    show "cs = map call_of (filter (\<lambda>x. dict_eq k (conf_of env x)) xs)" by simp
  qed
  show "\<forall>x \<in> set xs. \<exists>(k, cs) \<in> set (tasks s). dict_eq k (conf_of env x)"
  proof
    fix x
    assume x: "x \<in> set xs"
    with found obtain k cs where mem: "(k, cs) \<in> set (tasks s)"
      and same: "map_of k = map_of (conf_of env x)" by force
    from mem keys have "is_dict k" by auto
    with same dicts x have "dict_eq k (conf_of env x)" by (simp add: dict_eq_iff_map_of)
    with mem show "\<exists>(k, cs) \<in> set (tasks s). dict_eq k (conf_of env x)" by auto
  qed
  show "\<forall>i j. i < j \<and> j < length (tasks s) \<longrightarrow>
            \<not> dict_eq (fst (tasks s ! i)) (fst (tasks s ! j))"
  proof (intro allI impI)
    fix i j
    assume ij: "i < j \<and> j < length (tasks s)"
    let ?f = "\<lambda>(k, cs). map_of k :: string \<Rightarrow> pyval option"
    have i: "i < length (map ?f (tasks s))" and j: "j < length (map ?f (tasks s))"
      using ij by simp_all
    from nth_eq_iff_index_eq[OF dist i j] ij
    have "map ?f (tasks s) ! i \<noteq> map ?f (tasks s) ! j" by simp
    moreover have "map ?f (tasks s) ! i = map_of (fst (tasks s ! i))"
      and "map ?f (tasks s) ! j = map_of (fst (tasks s ! j))"
      using ij by (simp_all add: case_prod_beta)
    ultimately have neq: "map_of (fst (tasks s ! i)) \<noteq> map_of (fst (tasks s ! j))"
      by simp
    from ij keys have "is_dict (fst (tasks s ! i))" and "is_dict (fst (tasks s ! j))"
      by (auto simp: case_prod_beta)
    with neq show "\<not> dict_eq (fst (tasks s ! i)) (fst (tasks s ! j))"
      by (simp add: dict_eq_iff_map_of)
  qed
qed

theorem grouping_by_configuration_witness:
  "is_dict [(''cpus'', PInt 2), (''mem'', PStr ''1G'')]
   \<and> is_dict [(''mem'', PStr ''1G''), (''cpus'', PInt 2)]
   \<and> dict_eq [(''cpus'', PInt 2), (''mem'', PStr ''1G'')] [(''mem'', PStr ''1G''), (''cpus'', PInt 2)]
   \<and> HashableDict_hash example_env [(''cpus'', PInt 2), (''mem'', PStr ''1G'')]
     = HashableDict_hash example_env [(''mem'', PStr ''1G''), (''cpus'', PInt 2)]
   \<and> add_all example_env (AutoBatch_init None) example_invocations
     = Inr \<lparr>max_batch_size = None,
            tasks = [([(''cpus'', PInt 2), (''mem'', PStr ''1G'')],
                      [\<lparr>func_id = ''f'', args = [PInt 1], kwargs = []\<rparr>,
                       \<lparr>func_id = ''h'', args = [PInt 2], kwargs = []\<rparr>]),
                     ([(''cpus'', PInt 4)],
                      [\<lparr>func_id = ''g'', args = [], kwargs = []\<rparr>])],
            on_completion_list = []\<rparr>
   \<and> \<not> dict_eq [(''cpus'', PInt 2), (''mem'', PStr ''1G'')] [(''cpus'', PInt 4)]
   \<and> [\<lparr>func_id = ''f'', args = [PInt 1], kwargs = []\<rparr>,
       \<lparr>func_id = ''h'', args = [PInt 2], kwargs = []\<rparr>]
     = map call_of (filter (\<lambda>x. dict_eq [(''cpus'', PInt 2), (''mem'', PStr ''1G'')]
                                    (conf_of example_env x)) example_invocations)"
proof -
  let ?a = "[(''cpus'', PInt 2), (''mem'', PStr ''1G'')]"
  let ?b = "[(''mem'', PStr ''1G''), (''cpus'', PInt 2)]"
  let ?s = "\<lparr>max_batch_size = None,
            tasks = [(?a, [\<lparr>func_id = ''f'', args = [PInt 1], kwargs = []\<rparr>,
                          \<lparr>func_id = ''h'', args = [PInt 2], kwargs = []\<rparr>]),
                     ([(''cpus'', PInt 4)],
                      [\<lparr>func_id = ''g'', args = [], kwargs = []\<rparr>])],
            on_completion_list = []\<rparr>"
  have dicts: "is_dict ?a \<and> is_dict ?b" by (simp add: is_dict_def)
  have confs: "\<forall>x \<in> set example_invocations. is_dict (conf_of example_env x)"
    by (simp add: example_invocations_def example_env_def is_dict_def)
  have run: "add_all example_env (AutoBatch_init None) example_invocations = Inr ?s"
    by (simp add: example_invocations_def example_env_def AutoBatch_init_def add_def binds_def
          HashableDict_hash_def key_match_def dict_eq_def)
  note inst = grouping_by_configuration [where a = ?a and b = ?b and env = example_env
      and xs = example_invocations and B = None and s = ?s]
  have eq: "dict_eq ?a ?b" by (simp add: dict_eq_def)
  from inst dicts eq have hash: "HashableDict_hash example_env ?a = HashableDict_hash example_env ?b"
    by blast
  from inst confs run have
    groups: "\<forall>(k, cs) \<in> set (tasks ?s).
           cs = map call_of (filter (\<lambda>x. dict_eq k (conf_of example_env x)) example_invocations)"
    and apart: "\<forall>i j. i < j \<and> j < length (tasks ?s) \<longrightarrow>
            \<not> dict_eq (fst (tasks ?s ! i)) (fst (tasks ?s ! j))"
    by blast+
  from apart[rule_format, of 0 1] have neq: "\<not> dict_eq ?a [(''cpus'', PInt 4)]" by simp
  from groups have first: "[\<lparr>func_id = ''f'', args = [PInt 1], kwargs = []\<rparr>,
       \<lparr>func_id = ''h'', args = [PInt 2], kwargs = []\<rparr>]
     = map call_of (filter (\<lambda>x. dict_eq ?a (conf_of example_env x)) example_invocations)"
    by simp
  from dicts eq hash run neq first show ?thesis by blast
qed

end
